theory Spec2Isabelle
  imports Main
begin

section \<open>Lunar Shell: a shallow embedding of lush.c and of the Lua bridge\<close>

text \<open>
  The C sources are embedded function by function. A C string is the list of its
  characters before the terminating NUL; a \<^verbatim>\<open>char *\<close> that may be \<^verbatim>\<open>NULL\<close> is a
  \<open>string option\<close>. An access outside an allocated object or through a null pointer is
  undefined behaviour in C; the embedding returns it as a \<open>fault\<close> (\<open>Inl\<close>, or \<open>Fault\<close> where
  the function can also end the process).
  Everything the code asks of the operating system (the passwd entry, \<^verbatim>\<open>realpath\<close>,
  \<^verbatim>\<open>chdir\<close>, \<^verbatim>\<open>getenv\<close>, \<^verbatim>\<open>pipe\<close>, \<^verbatim>\<open>fork\<close>) is a field of the record \<open>world\<close>, together
  with the working directory, the open descriptors and the trace of visible effects.
\<close>

subsection \<open>Faults, events and the world\<close>

datatype fault = Out_Of_Bounds | Null_Dereference

type_synonym stage = "string option list"

datatype event =
    Perror string
  | Stderr string
  | Stdout string
  | Print_Time
  | Help_Text
  | Load_Script "string option"
  | Pipe_Open nat nat
  | Spawn "stage option" nat nat
  | Close nat
  | Close_EBADF nat
  | Push_History string

record world =
  env :: "string \<Rightarrow> string option"
  pw_dir :: "string option"
  realpath :: "string \<Rightarrow> string \<Rightarrow> string option"
  chdir_ok :: "string \<Rightarrow> bool"
  fd_limit :: nat
  can_fork :: bool
  debug_mode :: bool
  cwd :: string
  open_fds :: "nat set"
  trace :: "event list"

datatype 'a result = Fault fault | Exit int world | Return 'a world

definition NUL :: char where
  "NUL = CHR 0x00"

definition PATH_MAX :: nat where
  "PATH_MAX = 4096"

definition emit :: "event \<Rightarrow> world \<Rightarrow> world" where
  "emit e w = w\<lparr>trace := trace w @ [e]\<rparr>"

text \<open>\<^verbatim>\<open>chdir(p)\<close>: on success the working directory is the directory named \<open>p\<close>.\<close>

definition sys_chdir :: "string \<Rightarrow> world \<Rightarrow> bool \<times> world" where
  "sys_chdir p w = (if chdir_ok w p then (True, w\<lparr>cwd := p\<rparr>) else (False, w))"

text \<open>Entry \<open>i\<close> of an argument vector allocated by \<^verbatim>\<open>calloc\<close>: \<^verbatim>\<open>NULL\<close> past the written
  entries.\<close>

definition arg_at :: "stage \<Rightarrow> nat \<Rightarrow> string option" where
  "arg_at s i = (if i < length s then s ! i else None)"

subsection \<open>Tilde expansion and the \<^verbatim>\<open>cd\<close> builtin\<close>

text \<open>\<^verbatim>\<open>strchr(s, c)\<close> for a character other than NUL: the offset of the first \<open>c\<close>.\<close>

fun strchr :: "string \<Rightarrow> char \<Rightarrow> nat option" where
  "strchr [] c = None"
| "strchr (x # xs) c = (if x = c then Some 0 else map_option Suc (strchr xs c))"

text \<open>
  The block shared by \<^verbatim>\<open>lush_cd\<close> and \<^verbatim>\<open>get_expanded_path\<close>:
  \<^verbatim>\<open>
  char path[PATH_MAX];
  char *tilda = strchr(arg, '~');
  if (tilda) { strcpy(path, pw->pw_dir); strcat(path, tilda + 1); }
  else       { strcpy(path, arg); }
  \<close>
  \<^verbatim>\<open>strcpy\<close> and \<^verbatim>\<open>strcat\<close> do not check the size of \<open>path\<close>.
\<close>

definition expand_tilde :: "string \<Rightarrow> string \<Rightarrow> fault + string" where
  "expand_tilde home arg =
     (case strchr arg CHR ''~'' of
        Some k \<Rightarrow>
          (if length home + 1 \<le> PATH_MAX \<and> length home + length (drop (k + 1) arg) + 1 \<le> PATH_MAX
           then Inr (home @ drop (k + 1) arg)
           else Inl Out_Of_Bounds)
      | None \<Rightarrow> (if length arg + 1 \<le> PATH_MAX then Inr arg else Inl Out_Of_Bounds))"

definition lush_cd :: "world \<Rightarrow> stage list \<Rightarrow> int result" where
  "lush_cd w args =
     (case pw_dir w of
        None \<Rightarrow> Return 0 (emit (Perror ''retrieve home dir'') w)
      | Some home \<Rightarrow>
          (case args of
             [] \<Rightarrow> Fault Null_Dereference
           | a0 # _ \<Rightarrow>
               (case arg_at a0 1 of
                  None \<Rightarrow>
                    (case sys_chdir home w of
                       (True, w') \<Rightarrow> Return 1 w'
                     | (False, w') \<Rightarrow> Return 1 (emit (Perror ''lush: cd'') w'))
                | Some arg \<Rightarrow>
                    (case expand_tilde home arg of
                       Inl f \<Rightarrow> Fault f
                     | Inr path \<Rightarrow>
                         (case realpath w (cwd w) path of
                            None \<Rightarrow> Return 1 (emit (Perror ''realpath'') w)
                          | Some exp_path \<Rightarrow>
                              (case sys_chdir exp_path w of
                                 (True, w') \<Rightarrow> Return 1 w'
                               | (False, w') \<Rightarrow> Return 1 (emit (Perror ''lush: cd'') w')))))))"

text \<open>\<^verbatim>\<open>get_expanded_path\<close> of the bridge: \<^verbatim>\<open>NULL\<close> or the canonical path.\<close>

definition get_expanded_path :: "world \<Rightarrow> string option \<Rightarrow> string option result" where
  "get_expanded_path w check_item =
     (case pw_dir w of
        None \<Rightarrow> Return None (emit (Perror ''retrieve home dir'') w)
      | Some home \<Rightarrow>
          (case check_item of
             None \<Rightarrow> Return None w
           | Some item \<Rightarrow>
               (case expand_tilde home item of
                  Inl f \<Rightarrow> Fault f
                | Inr path \<Rightarrow> Return (realpath w (cwd w) path) w)))"

text \<open>\<^verbatim>\<open>l_exists\<close>: the boolean pushed on the Lua stack.\<close>

definition l_exists :: "world \<Rightarrow> string \<Rightarrow> bool result" where
  "l_exists w check_item =
     (case get_expanded_path w (Some check_item) of
        Return None w' \<Rightarrow> Return False w'
      | Return (Some exp_path) w' \<Rightarrow> Return True w'
      | Exit c w' \<Rightarrow> Exit c w'
      | Fault f \<Rightarrow> Fault f)"

subsection \<open>A concrete world for evaluation\<close>

text \<open>The user's home is \<open>/home/u\<close>; \<open>/home/u\<close>, \<open>/home/u/x\<close> and \<open>/tmp\<close> are directories,
  \<open>/etc/passwd\<close> is a regular file; nothing else exists. No environment variable is set,
  descriptors 0, 1 and 2 are open.\<close>

definition demo_world :: world where
  "demo_world = \<lparr>
     env = (\<lambda>n. None),
     pw_dir = Some ''/home/u'',
     realpath = (\<lambda>d p. if p \<in> {''/home/u'', ''/home/u/x'', ''/tmp'', ''/etc/passwd''} then Some p else None),
     chdir_ok = (\<lambda>p. p \<in> {''/home/u'', ''/home/u/x'', ''/tmp''}),
     fd_limit = 1024,
     can_fork = True,
     debug_mode = False,
     cwd = ''/tmp'',
     open_fds = {0, 1, 2},
     trace = [] \<rparr>"

subsection \<open>The pipeline executor\<close>

text \<open>\<^verbatim>\<open>pipe\<close> takes the two lowest unused descriptors below the limit of the process, or fails.\<close>

primrec lowest_free :: "nat set \<Rightarrow> nat \<Rightarrow> nat \<Rightarrow> nat option" where
  "lowest_free used lo 0 = None"
| "lowest_free used lo (Suc n) = (if lo \<notin> used then Some lo else lowest_free used (Suc lo) n)"

definition sys_pipe :: "world \<Rightarrow> (nat \<times> nat) option \<times> world" where
  "sys_pipe w =
     (case lowest_free (open_fds w) 0 (fd_limit w) of
        None \<Rightarrow> (None, w)
      | Some r \<Rightarrow>
          (case lowest_free (insert r (open_fds w)) 0 (fd_limit w) of
             None \<Rightarrow> (None, w)
           | Some wr \<Rightarrow>
               (Some (r, wr), emit (Pipe_Open r wr) (w\<lparr>open_fds := insert wr (insert r (open_fds w))\<rparr>))))"

text \<open>\<^verbatim>\<open>close(fd)\<close>: fails with \<^verbatim>\<open>EBADF\<close> on a descriptor that is not open.\<close>

definition sys_close :: "nat \<Rightarrow> world \<Rightarrow> world" where
  "sys_close fd w =
     (if fd \<in> open_fds w then emit (Close fd) (w\<lparr>open_fds := open_fds w - {fd}\<rparr>)
      else emit (Close_EBADF fd) w)"

text \<open>Entry \<open>i\<close> of the array of stages (\<^verbatim>\<open>calloc(128, ...)\<close>): \<^verbatim>\<open>NULL\<close> past the stages.\<close>

definition stage_at :: "stage list \<Rightarrow> nat \<Rightarrow> stage option" where
  "stage_at commands i = (if i < length commands then Some (commands ! i) else None)"

text \<open>\<^verbatim>\<open>lush_execute_command\<close>, seen from the parent: the child is spawned with its
  argument vector and its two descriptors, and waited for (the child is taken to end); a
  failed \<^verbatim>\<open>fork\<close> ends the shell. What the child writes goes to its output descriptor.\<close>

definition lush_execute_command :: "world \<Rightarrow> stage option \<Rightarrow> nat \<Rightarrow> nat \<Rightarrow> unit result" where
  "lush_execute_command w args input_fd output_fd =
     (if can_fork w then Return () (emit (Spawn args input_fd output_fd) w)
      else Exit 1 (emit (Perror ''fork'') w))"

text \<open>The first loop of \<^verbatim>\<open>lush_execute_pipeline\<close>: one \<^verbatim>\<open>pipe\<close> per iteration, \<open>None\<close> when a
  call fails (the function then returns 0).\<close>

primrec create_pipes :: "nat \<Rightarrow> world \<Rightarrow> (nat \<times> nat) list \<Rightarrow> (nat \<times> nat) list option \<times> world" where
  "create_pipes 0 w pipes = (Some pipes, w)"
| "create_pipes (Suc n) w pipes =
     (case sys_pipe w of
        (None, w') \<Rightarrow> (None, emit (Perror ''pipe'') w')
      | (Some p, w') \<Rightarrow> create_pipes n w' (pipes @ [p]))"

text \<open>The second loop: stage \<open>i\<close> reads the previous pipe (standard input for stage 0) and
  writes its own pipe, whose write end the parent closes after the child has ended.\<close>

primrec execute_stages :: "nat \<Rightarrow> nat \<Rightarrow> stage list \<Rightarrow> (nat \<times> nat) list \<Rightarrow> world \<Rightarrow> unit result" where
  "execute_stages 0 i commands pipes w = Return () w"
| "execute_stages (Suc k) i commands pipes w =
     (let input_fd = (if i = 0 then 0 else fst (pipes ! (i - 1)));
          output_fd = snd (pipes ! i)
      in case lush_execute_command w (stage_at commands i) input_fd output_fd of
           Return u w' \<Rightarrow> execute_stages k (Suc i) commands pipes (sys_close output_fd w')
         | Exit c w' \<Rightarrow> Exit c w'
         | Fault f \<Rightarrow> Fault f)"

text \<open>The last loop: both ends of every pipe are closed.\<close>

primrec close_pipes :: "(nat \<times> nat) list \<Rightarrow> world \<Rightarrow> world" where
  "close_pipes [] w = w"
| "close_pipes (p # ps) w = close_pipes ps (sys_close (snd p) (sys_close (fst p) w))"

definition lush_execute_pipeline :: "world \<Rightarrow> stage list \<Rightarrow> int \<Rightarrow> int result" where
  "lush_execute_pipeline w commands num_commands =
     (case commands of
        [] \<Rightarrow> Fault Null_Dereference
      | c0 # _ \<Rightarrow>
          (case arg_at c0 0 of
             None \<Rightarrow> Fault Null_Dereference
           | Some a \<Rightarrow>
               if a = [] then Return 1 w
               else if num_commands < 1 then Fault Out_Of_Bounds
               else
                 (let n = nat (num_commands - 1) in
                  case create_pipes n w [] of
                    (None, w1) \<Rightarrow> Return 0 w1
                  | (Some pipes, w1) \<Rightarrow>
                      (case execute_stages n 0 commands pipes w1 of
                         Return u w2 \<Rightarrow>
                           (let input_fd = (if num_commands > 1 then fst (pipes ! (n - 1)) else 0)
                            in case lush_execute_command w2 (stage_at commands n) input_fd 1 of
                                 Return u' w3 \<Rightarrow> Return 1 (close_pipes pipes w3)
                               | Exit c w' \<Rightarrow> Exit c w'
                               | Fault f \<Rightarrow> Fault f)
                       | Exit c w' \<Rightarrow> Exit c w'
                       | Fault f \<Rightarrow> Fault f))))"

subsection \<open>Builtins and dispatch\<close>

datatype builtin = Builtin_cd | Builtin_help | Builtin_exit | Builtin_time | Builtin_lush

definition builtin_strs :: "string list" where
  "builtin_strs = [''cd'', ''help'', ''exit'', ''time'', ''lush'']"

definition builtin_func :: "builtin list" where
  "builtin_func = [Builtin_cd, Builtin_help, Builtin_exit, Builtin_time, Builtin_lush]"

text \<open>\<^verbatim>\<open>lush_help\<close>: the help text (of \<^verbatim>\<open>help.h\<close>, one event), the two fixed lines and the
  builtin names; the version line is compiled in only when \<^verbatim>\<open>LUSH_VERSION\<close> is defined.\<close>

definition lush_help :: "world \<Rightarrow> stage list \<Rightarrow> int result" where
  "lush_help w args =
     Return 1 (foldl (\<lambda>w' s. emit (Stdout (''- '' @ s)) w')
       (emit (Stdout ''Available commands: '')
         (emit (Stdout ''These shell commands are defined internally. Type 'help' at any time to reference this list.'')
           (emit Help_Text w)))
       builtin_strs)"

definition lush_exit :: "world \<Rightarrow> stage list \<Rightarrow> int result" where
  "lush_exit w args = Return 0 w"

text \<open>\<^verbatim>\<open>lush_lush\<close> hands the script name to the Lua loader; what the script does is outside
  this embedding.\<close>

definition lush_lush :: "world \<Rightarrow> stage list \<Rightarrow> int result" where
  "lush_lush w args =
     (case args of
        [] \<Rightarrow> Fault Null_Dereference
      | a0 # _ \<Rightarrow> Return 1 (emit (Load_Script (arg_at (tl a0) 0)) w))"

text \<open>
  \<^verbatim>\<open>lush_run\<close> looks the first word up in the table of builtins, in table order, and calls
  the executor otherwise. \<^verbatim>\<open>lush_time\<close> advances the first stage past its own name
  (\<^verbatim>\<open>args[0]++\<close>), counts with \<^verbatim>\<open>while (args[i++])\<close> and calls \<^verbatim>\<open>lush_run\<close> again.
\<close>

function lush_run :: "world \<Rightarrow> stage list \<Rightarrow> int \<Rightarrow> int result"
  and lush_time :: "world \<Rightarrow> stage list \<Rightarrow> int result" where
  "lush_run w commands num_commands =
     (case commands of
        [] \<Rightarrow> Fault Null_Dereference
      | c0 # cs \<Rightarrow>
          (case arg_at c0 0 of
             None \<Rightarrow> Return 1 w
           | Some name \<Rightarrow>
               (case map_of (zip builtin_strs builtin_func) name of
                  Some Builtin_cd \<Rightarrow> lush_cd w commands
                | Some Builtin_help \<Rightarrow> lush_help w commands
                | Some Builtin_exit \<Rightarrow> lush_exit w commands
                | Some Builtin_time \<Rightarrow> lush_time w commands
                | Some Builtin_lush \<Rightarrow> lush_lush w commands
                | None \<Rightarrow> lush_execute_pipeline w commands num_commands)))"
| "lush_time w args =
     (case args of
        [] \<Rightarrow> Fault Null_Dereference
      | a0 # as \<Rightarrow>
          (let i = int (length args) + 1
           in case lush_run w (tl a0 # as) i of
                Return rc w' \<Rightarrow> Return rc (emit Print_Time w')
              | Exit c w' \<Rightarrow> Exit c w'
              | Fault f \<Rightarrow> Fault f))"
  by pat_completeness auto
termination
  by (relation "measure (\<lambda>x. case x of
         Inl (w, commands, n) \<Rightarrow> (case commands of [] \<Rightarrow> 0 | c0 # cs \<Rightarrow> if c0 = [] then 0 else 2 * length c0 + 1)
       | Inr (w, commands) \<Rightarrow> (case commands of [] \<Rightarrow> 0 | c0 # cs \<Rightarrow> if c0 = [] then 1 else 2 * length c0))")
     (auto simp: arg_at_def neq_Nil_conv split: if_splits list.splits)

subsection \<open>The tokenizer: memory, \<^verbatim>\<open>strtok\<close> and \<^verbatim>\<open>lush_split_pipes\<close>\<close>

text \<open>
  The tokenizer works in place: it writes NUL characters into the line and returns
  pointers into it. The object that holds the line (the 1024 bytes of \<^verbatim>\<open>lush_read_line\<close>,
  or the string of the Lua caller) is a list of characters, a pointer into it is an
  offset, and a read or write at an offset outside the list is a fault.
\<close>

type_synonym mem = "char list"

definition DQUOTE :: char where
  "DQUOTE = CHR 0x22"

definition blank :: "char \<Rightarrow> bool" where
  "blank x \<longleftrightarrow> x = CHR '' '' \<or> x = CHR 0x0A"

text \<open>\<^verbatim>\<open>strlen\<close> at offset \<open>p\<close>, and whether the string there ends inside the object.\<close>

definition strlen :: "mem \<Rightarrow> nat \<Rightarrow> nat" where
  "strlen m p = length (takeWhile (\<lambda>x. x \<noteq> NUL) (drop p m))"

definition terminated :: "mem \<Rightarrow> nat \<Rightarrow> bool" where
  "terminated m p \<longleftrightarrow> p + strlen m p < length m"

definition cstring :: "mem \<Rightarrow> nat \<Rightarrow> string" where
  "cstring m p = takeWhile (\<lambda>x. x \<noteq> NUL) (drop p m)"

text \<open>
  One call of \<^verbatim>\<open>strtok\<close> with the delimiter \<open>|\<close>, resuming at offset \<open>p\<close>: it skips
  delimiters, returns \<^verbatim>\<open>NULL\<close> at the end of the string, and otherwise ends the token by
  overwriting the delimiter after it with NUL. The result is the memory, the token and
  the offset where the next call resumes.
\<close>

definition strtok_pipe :: "mem \<Rightarrow> nat \<Rightarrow> fault + (mem \<times> nat \<times> nat) option" where
  "strtok_pipe m p =
     (let s = p + length (takeWhile (\<lambda>x. x = CHR ''|'') (drop p m)) in
      if length m \<le> s then Inl Out_Of_Bounds
      else if m ! s = NUL then Inr None
      else
        (let e = s + length (takeWhile (\<lambda>x. x \<noteq> CHR ''|'' \<and> x \<noteq> NUL) (drop s m)) in
         if length m \<le> e then Inl Out_Of_Bounds
         else if m ! e = NUL then Inr (Some (m, s, e))
         else Inr (Some (m[e := NUL], s, Suc e))))"

text \<open>The first loop of \<^verbatim>\<open>lush_split_pipes\<close>; \<open>commands\<close> has room for 16 pointers.\<close>

function strtok_loop :: "mem \<Rightarrow> nat \<Rightarrow> nat list \<Rightarrow> fault + (mem \<times> nat list)" where
  "strtok_loop m p commands =
     (case strtok_pipe m p of
        Inl f \<Rightarrow> Inl f
      | Inr None \<Rightarrow> Inr (m, commands)
      | Inr (Some (m', s, p')) \<Rightarrow>
          if 16 \<le> length commands then Inl Out_Of_Bounds
          else strtok_loop m' p' (commands @ [s]))"
  by pat_completeness auto
termination
proof (relation "measure (\<lambda>(m, p, commands). length m - p)")
  fix m :: mem and p :: nat and commands :: "nat list" and x y m' z s p'
  assume tok: "strtok_pipe m p = Inr x" "x = Some y" "(m', z) = y" "(s, p') = z"
  define s0 where "s0 = p + length (takeWhile (\<lambda>x. x = CHR ''|'') (drop p m))"
  define e0 where "e0 = s0 + length (takeWhile (\<lambda>x. x \<noteq> CHR ''|'' \<and> x \<noteq> NUL) (drop s0 m))"
  from tok have in_s: "s0 < length m" and not_nul: "m ! s0 \<noteq> NUL"
    by (auto simp: strtok_pipe_def Let_def s0_def split: if_splits)
  have "\<not> (\<lambda>x. x = CHR ''|'') (drop p m ! length (takeWhile (\<lambda>x. x = CHR ''|'') (drop p m)))"
    using in_s by (intro nth_length_takeWhile) (simp add: s0_def)
  then have not_bar: "m ! s0 \<noteq> CHR ''|''"
    using in_s by (simp add: s0_def)
  have "drop s0 m = m ! s0 # drop (Suc s0) m"
    using in_s by (simp add: Cons_nth_drop_Suc)
  then have "s0 < e0"
    using not_bar not_nul by (simp add: e0_def)
  moreover from tok have "e0 < length m" "p' = e0 \<or> p' = Suc e0" "length m' = length m"
    by (auto simp: strtok_pipe_def Let_def s0_def e0_def split: if_splits)
  moreover have "p \<le> s0"
    by (simp add: s0_def)
  ultimately show "((m', p', commands @ [s]), (m, p, commands)) \<in> measure (\<lambda>(m, p, commands). length m - p)"
    by auto
qed simp

declare strtok_loop.simps [simp del]

text \<open>
  The second loop of \<^verbatim>\<open>lush_split_pipes\<close>, for one stage: the pointer moves over leading
  blanks, and blanks at the end are overwritten with NUL, from the terminator downwards.
  \<open>trim_end m e\<close> examines the character before offset \<open>e\<close>; before offset 0 there is
  nothing of the object.
\<close>

fun trim_end :: "mem \<Rightarrow> nat \<Rightarrow> fault + mem" where
  "trim_end m 0 = Inl Out_Of_Bounds"
| "trim_end m (Suc e) =
     (if length m \<le> e then Inl Out_Of_Bounds
      else if blank (m ! e) then trim_end (m[e := NUL]) e
      else Inr m)"

definition trim_stage :: "mem \<Rightarrow> nat \<Rightarrow> fault + (mem \<times> nat)" where
  "trim_stage m c =
     (let c' = c + length (takeWhile blank (drop c m)) in
      if length m \<le> c' then Inl Out_Of_Bounds
      else if \<not> terminated m c' then Inl Out_Of_Bounds
      else
        (case trim_end m (c' + strlen m c') of
           Inl f \<Rightarrow> Inl f
         | Inr m' \<Rightarrow> Inr (m', c')))"

fun trim_loop :: "mem \<Rightarrow> nat list \<Rightarrow> fault + (mem \<times> nat list)" where
  "trim_loop m [] = Inr (m, [])"
| "trim_loop m (c # cs) =
     (case trim_stage m c of
        Inl f \<Rightarrow> Inl f
      | Inr (m', c') \<Rightarrow>
          (case trim_loop m' cs of
             Inl f \<Rightarrow> Inl f
           | Inr (m'', cs') \<Rightarrow> Inr (m'', c' # cs')))"

definition lush_split_pipes :: "mem \<Rightarrow> fault + (mem \<times> nat list)" where
  "lush_split_pipes line =
     (case strtok_loop line 0 [] of
        Inl f \<Rightarrow> Inl f
      | Inr (m, commands) \<Rightarrow> trim_loop m commands)"

subsection \<open>\<^verbatim>\<open>lush_split_args\<close>\<close>

text \<open>An entry of an argument vector: \<^verbatim>\<open>NULL\<close>, a pointer into the line, or the pointer that
  \<^verbatim>\<open>getenv\<close> returned (the value of the variable).\<close>

datatype ptr = Null | Line nat | Env_Value string

definition ptr_of :: "nat option \<Rightarrow> ptr" where
  "ptr_of t = (case t of None \<Rightarrow> Null | Some p \<Rightarrow> Line p)"

definition getenv_ptr :: "(string \<Rightarrow> string option) \<Rightarrow> string \<Rightarrow> ptr" where
  "getenv_ptr ge name = (case ge name of None \<Rightarrow> Null | Some v \<Rightarrow> Env_Value v)"

text \<open>\<^verbatim>\<open>if (current_token && *current_token != ' ') args[pos++] = current_token;\<close>
  with \<open>args\<close> of 128 entries.\<close>

definition push_token :: "mem \<Rightarrow> nat option \<Rightarrow> ptr list \<Rightarrow> fault + ptr list" where
  "push_token m current_token args =
     (case current_token of
        None \<Rightarrow> Inr args
      | Some t \<Rightarrow>
          if length m \<le> t then Inl Out_Of_Bounds
          else if m ! t \<noteq> CHR '' '' then
            (if 128 \<le> length args then Inl Out_Of_Bounds else Inr (args @ [Line t]))
          else Inr args)"

text \<open>
  The inner loop of \<^verbatim>\<open>lush_split_args\<close> over the characters of the stage at offset \<open>c\<close>,
  entered at index \<open>j\<close>. It returns when it reads NUL at \<open>c + j\<close>, with the memory, the
  flag \<open>inside_string\<close>, \<open>current_token\<close> and the arguments stored so far.
\<close>

function scan_args ::
  "(string \<Rightarrow> string option) \<Rightarrow> mem \<Rightarrow> nat \<Rightarrow> nat \<Rightarrow> bool \<Rightarrow> nat option \<Rightarrow> ptr list
     \<Rightarrow> fault + (mem \<times> bool \<times> nat option \<times> ptr list)" where
  "scan_args ge m c j inside_string current_token args =
     (if length m \<le> c + j then Inl Out_Of_Bounds
      else if m ! (c + j) = NUL then Inr (m, inside_string, current_token, args)
      else if m ! (c + j) = DQUOTE \<and> \<not> inside_string then
        (if length m \<le> c + j + 1 then Inl Out_Of_Bounds
         else if m ! (c + j + 1) \<noteq> DQUOTE then
           scan_args ge (m[c + j := NUL]) c (j + 2) True (Some (c + j + 1)) args
         else
           scan_args ge (m[c + j := NUL, c + j + 1 := NUL]) c (j + 3) False (Some (c + j + 2)) args)
      else if inside_string then
        (if m ! (c + j) = DQUOTE then
           (if 128 \<le> length args then Inl Out_Of_Bounds
            else scan_args ge (m[c + j := NUL]) c (j + 1) False None (args @ [ptr_of current_token]))
         else scan_args ge m c (j + 1) inside_string current_token args)
      else if m ! (c + j) = CHR '' '' then
        (case push_token m current_token args of
           Inl f \<Rightarrow> Inl f
         | Inr args' \<Rightarrow> scan_args ge (m[c + j := NUL]) c (j + 1) inside_string (Some (c + j + 1)) args')
      else if m ! (c + j) = CHR ''$'' then
        (if length m \<le> c + j + 1 then Inl Out_Of_Bounds
         else if m ! (c + j + 1) \<noteq> NUL \<and> m ! (c + j + 1) \<noteq> CHR '' '' then
           (if 128 \<le> length args then Inl Out_Of_Bounds
            else if \<not> terminated m (c + j + 1) then Inl Out_Of_Bounds
            else
              (let j' = j + 1 + strlen m (c + j + 1) in
               scan_args ge m c (j' + 1) inside_string (Some (c + j' + 1))
                 (args @ [getenv_ptr ge (cstring m (c + j + 1))])))
         else scan_args ge m c (j + 1) inside_string current_token args)
      else scan_args ge m c (j + 1) inside_string current_token args)"
  by pat_completeness auto
termination
  by (relation "measure (\<lambda>(ge, m, c, j, inside_string, current_token, args). length m - (c + j))") auto

declare scan_args.simps [simp del]

text \<open>
  The outer loop over the stages. A stage that ends inside a string sets the status to
  \<open>-1\<close> and returns at once; otherwise the last token is pushed and the vector is
  stored. The loop ends on the \<^verbatim>\<open>NULL\<close> after the last stage; \<open>commands\<close> has 16 entries, so
  after 16 stages there is none to read.
\<close>

fun split_args_loop ::
  "(string \<Rightarrow> string option) \<Rightarrow> mem \<Rightarrow> nat list \<Rightarrow> ptr list list \<Rightarrow> fault + (mem \<times> ptr list list \<times> int)" where
  "split_args_loop ge m [] command_args =
     (if 16 \<le> length command_args then Inl Out_Of_Bounds
      else Inr (m, command_args, int (length command_args)))"
| "split_args_loop ge m (c # cs) command_args =
     (case scan_args ge m c 0 False (Some c) [] of
        Inl f \<Rightarrow> Inl f
      | Inr (m', inside_string, current_token, args) \<Rightarrow>
          if inside_string then Inr (m', command_args, - 1)
          else
            (case push_token m' current_token args of
               Inl f \<Rightarrow> Inl f
             | Inr args' \<Rightarrow> split_args_loop ge m' cs (command_args @ [args'])))"

definition lush_split_args ::
  "(string \<Rightarrow> string option) \<Rightarrow> mem \<Rightarrow> nat list \<Rightarrow> fault + (mem \<times> ptr list list \<times> int)" where
  "lush_split_args ge m commands = split_args_loop ge m commands []"

text \<open>What the later stages read through the pointers: the strings in the final memory.\<close>

definition deref :: "mem \<Rightarrow> ptr \<Rightarrow> string option" where
  "deref m p = (case p of Null \<Rightarrow> None | Line t \<Rightarrow> Some (cstring m t) | Env_Value v \<Rightarrow> Some v)"

definition resolve :: "mem \<Rightarrow> ptr list list \<Rightarrow> stage list" where
  "resolve m command_args = map (map (deref m)) command_args"

subsection \<open>The read-eval loop and the bridge's \<^verbatim>\<open>exec\<close>\<close>

text \<open>
  One pass of the loop of \<^verbatim>\<open>main\<close>, from the line that \<^verbatim>\<open>lush_read_line\<close> returned: an empty
  line is skipped; otherwise the line is split, and \<^verbatim>\<open>lush_run\<close> is called unless the status
  is \<open>-1\<close>. A result 0 of \<^verbatim>\<open>lush_run\<close> ends the process with \<^verbatim>\<open>exit(1)\<close>. The prompt and the
  redrawing of the terminal are not part of the embedding.
\<close>

definition main_iteration :: "world \<Rightarrow> mem \<Rightarrow> unit result" where
  "main_iteration w line =
     (if \<not> terminated line 0 then Fault Out_Of_Bounds
      else if strlen line 0 = 0 then Return () w
      else
        (case lush_split_pipes line of
           Inl f \<Rightarrow> Fault f
         | Inr (m, commands) \<Rightarrow>
             (case lush_split_args (env w) m commands of
                Inl f \<Rightarrow> Fault f
              | Inr (m', args, status) \<Rightarrow>
                  if status = - 1 then Return () (emit (Stderr ''lush: Expected end of quoted string'') w)
                  else
                    (case lush_run w (resolve m' args) status of
                       Return rc w' \<Rightarrow> if rc = 0 then Exit 1 w' else Return () w'
                     | Exit c w' \<Rightarrow> Exit c w'
                     | Fault f \<Rightarrow> Fault f))))"

text \<open>\<^verbatim>\<open>execute_command\<close> of the bridge returns the status of \<^verbatim>\<open>lush_split_args\<close>; the line, as
  the tokenizer left it, goes to the history. The tokenizer has written into the caller's
  string, so the result also carries that string as it is afterwards.\<close>

definition execute_command :: "world \<Rightarrow> mem \<Rightarrow> (int \<times> mem) result" where
  "execute_command w line =
     (case lush_split_pipes line of
        Inl f \<Rightarrow> Fault f
      | Inr (m, commands) \<Rightarrow>
          (case lush_split_args (env w) m commands of
             Inl f \<Rightarrow> Fault f
           | Inr (m', args, status) \<Rightarrow>
               if status = - 1 then
                 Return (status, m') (emit (Push_History (cstring m' 0))
                   (emit (Stderr ''lush: Expected end of quoted string'') w))
               else
                 (case lush_run w (resolve m' args) status of
                    Return rc w' \<Rightarrow>
                      if rc = 0 then Exit 1 w'
                      else Return (status, m') (emit (Push_History (cstring m' 0)) w')
                  | Exit c w' \<Rightarrow> Exit c w'
                  | Fault f \<Rightarrow> Fault f)))"

text \<open>\<^verbatim>\<open>l_execute_command\<close>: the boolean pushed for Lua's \<^verbatim>\<open>lush.exec\<close>. The command line is a
  Lua string: an object of exactly its characters and the NUL after them. In debug mode
  the message prints \<open>command\<close>, the same string after the tokenizer has written its NUL
  characters into it.\<close>

definition l_execute_command :: "world \<Rightarrow> string \<Rightarrow> bool result" where
  "l_execute_command w command =
     (case execute_command w (command @ [NUL]) of
        Fault f \<Rightarrow> Fault f
      | Exit c w' \<Rightarrow> Exit c w'
      | Return (status, command') w' \<Rightarrow>
          (let rc = (status \<noteq> - 1) in
           if debug_mode w' then
             Return rc (emit (Stdout (''Executed: '' @ cstring command' 0 @
               (if rc then '', success'' else '', failed''))) w')
           else Return rc w'))"

subsection \<open>The line editor\<close>

definition BUFFER_SIZE :: nat where
  "BUFFER_SIZE = 1024"

record editor =
  buffer :: mem
  pos :: nat

text \<open>\<^verbatim>\<open>memmove(&m[dst], &m[src], n)\<close>.\<close>

definition memmove :: "mem \<Rightarrow> nat \<Rightarrow> nat \<Rightarrow> nat \<Rightarrow> fault + mem" where
  "memmove m dst src n =
     (if src + n \<le> length m \<and> dst + n \<le> length m
      then Inr (take dst m @ take n (drop src m) @ drop (dst + n) m)
      else Inl Out_Of_Bounds)"

text \<open>The five editing branches of the loop of \<^verbatim>\<open>lush_read_line\<close>, on the buffer and the
  cursor \<open>pos\<close>. The terminal mode and the redrawing after each edit are not part of the
  embedding.\<close>

definition key_right :: "editor \<Rightarrow> fault + editor" where
  "key_right ed =
     (if \<not> terminated (buffer ed) 0 then Inl Out_Of_Bounds
      else if pos ed < strlen (buffer ed) 0 then Inr (ed\<lparr>pos := pos ed + 1\<rparr>)
      else Inr ed)"

definition key_left :: "editor \<Rightarrow> fault + editor" where
  "key_left ed = (if 0 < pos ed then Inr (ed\<lparr>pos := pos ed - 1\<rparr>) else Inr ed)"

definition key_delete :: "editor \<Rightarrow> fault + editor" where
  "key_delete ed =
     (if \<not> terminated (buffer ed) 0 then Inl Out_Of_Bounds
      else if pos ed < strlen (buffer ed) 0 then
        (if \<not> terminated (buffer ed) (pos ed + 1) then Inl Out_Of_Bounds
         else
           (case memmove (buffer ed) (pos ed) (pos ed + 1) (strlen (buffer ed) (pos ed + 1) + 1) of
              Inl f \<Rightarrow> Inl f
            | Inr m \<Rightarrow> Inr (ed\<lparr>buffer := m\<rparr>)))
      else Inr ed)"

definition key_backspace :: "editor \<Rightarrow> fault + editor" where
  "key_backspace ed =
     (if 0 < pos ed then
        (if \<not> terminated (buffer ed) (pos ed) then Inl Out_Of_Bounds
         else
           (case memmove (buffer ed) (pos ed - 1) (pos ed) (strlen (buffer ed) (pos ed) + 1) of
              Inl f \<Rightarrow> Inl f
            | Inr m \<Rightarrow> Inr (ed\<lparr>buffer := m, pos := pos ed - 1\<rparr>)))
      else Inr ed)"

definition key_insert :: "char \<Rightarrow> editor \<Rightarrow> fault + editor" where
  "key_insert x ed =
     (if pos ed < BUFFER_SIZE - 1 then
        (if \<not> terminated (buffer ed) (pos ed) then Inl Out_Of_Bounds
         else
           (case memmove (buffer ed) (pos ed + 1) (pos ed) (strlen (buffer ed) (pos ed) + 1) of
              Inl f \<Rightarrow> Inl f
            | Inr m \<Rightarrow> Inr (ed\<lparr>buffer := m[pos ed := x], pos := pos ed + 1\<rparr>)))
      else Inr ed)"

text \<open>\<^verbatim>\<open>getchar\<close> on the rest of standard input: \<open>None\<close> is \<^verbatim>\<open>EOF\<close>, which stays at the end of
  input. Stored into a \<^verbatim>\<open>char\<close>, \<^verbatim>\<open>EOF\<close> is the byte \<open>0xFF\<close>.\<close>

definition getchar :: "char list \<Rightarrow> char option \<times> char list" where
  "getchar inp = (case inp of [] \<Rightarrow> (None, []) | x # xs \<Rightarrow> (Some x, xs))"

definition char_of_int_c :: "char option \<Rightarrow> char" where
  "char_of_int_c c = (case c of None \<Rightarrow> CHR 0xFF | Some x \<Rightarrow> x)"

text \<open>
  The loop of \<^verbatim>\<open>lush_read_line\<close>. It leaves only through the \<^verbatim>\<open>break\<close> on a newline, so it
  need not end: the first argument bounds the number of iterations, and \<open>None\<close> says that
  the loop is still running after that many. The result is the buffer and the input
  left.
\<close>

fun read_loop :: "nat \<Rightarrow> char list \<Rightarrow> editor \<Rightarrow> (fault + (mem \<times> char list)) option" where
  "read_loop 0 inp ed = None"
| "read_loop (Suc n) inp ed =
     (case getchar inp of (c, inp1) \<Rightarrow>
        if c = Some (CHR 0x1B) then
          (case getchar inp1 of (b, inp2) \<Rightarrow>
             (case getchar inp2 of (k, inp3) \<Rightarrow>
                if k = Some (CHR ''C'') then
                  (case key_right ed of Inl f \<Rightarrow> Some (Inl f) | Inr ed' \<Rightarrow> read_loop n inp3 ed')
                else if k = Some (CHR ''D'') then
                  (case key_left ed of Inl f \<Rightarrow> Some (Inl f) | Inr ed' \<Rightarrow> read_loop n inp3 ed')
                else if k = Some (CHR ''3'') then
                  (case getchar inp3 of (t, inp4) \<Rightarrow>
                     if t = Some (CHR ''~'') then
                       (case key_delete ed of Inl f \<Rightarrow> Some (Inl f) | Inr ed' \<Rightarrow> read_loop n inp4 ed')
                     else read_loop n inp4 ed)
                else read_loop n inp3 ed))
        else if c = Some (CHR 0x7F) then
          (case key_backspace ed of Inl f \<Rightarrow> Some (Inl f) | Inr ed' \<Rightarrow> read_loop n inp1 ed')
        else if c = Some (CHR 0x0A) then Some (Inr (buffer ed, inp1))
        else
          (case key_insert (char_of_int_c c) ed of
             Inl f \<Rightarrow> Some (Inl f)
           | Inr ed' \<Rightarrow> read_loop n inp1 ed'))"

definition lush_read_line :: "nat \<Rightarrow> char list \<Rightarrow> (fault + (mem \<times> char list)) option" where
  "lush_read_line n inp = read_loop n inp \<lparr>buffer = replicate BUFFER_SIZE NUL, pos = 0\<rparr>"

text \<open>The buffer of \<^verbatim>\<open>lush_read_line\<close> after the user typed \<open>s\<close> and Enter: \<open>s\<close> and NUL up to
  the size of the buffer.\<close>

definition line_buffer :: "string \<Rightarrow> mem" where
  "line_buffer s = s @ replicate (BUFFER_SIZE - length s) NUL"

text \<open>The invariant of the line buffer: the buffer has its size, holds a terminated
  string, and the cursor is inside the text.\<close>

definition editor_inv :: "editor \<Rightarrow> bool" where
  "editor_inv ed \<longleftrightarrow>
     length (buffer ed) = BUFFER_SIZE \<and> terminated (buffer ed) 0 \<and> pos ed \<le> strlen (buffer ed) 0"

text \<open>The two calls that \<^verbatim>\<open>main\<close> and \<^verbatim>\<open>execute_command\<close> make on a line, with the strings
  that the argument vectors point to afterwards.\<close>

definition tokenize ::
  "(string \<Rightarrow> string option) \<Rightarrow> mem \<Rightarrow> fault + (stage list \<times> ptr list list \<times> int)" where
  "tokenize ge line =
     (case lush_split_pipes line of
        Inl f \<Rightarrow> Inl f
      | Inr (m, commands) \<Rightarrow>
          (case lush_split_args ge m commands of
             Inl f \<Rightarrow> Inl f
           | Inr (m', args, status) \<Rightarrow> Inr (resolve m' args, args, status)))"

text \<open>The segments of a line between its \<open>|\<close> characters: what the stages of a line are
  before \<^verbatim>\<open>strtok\<close> drops the empty ones.\<close>

fun pipe_segments :: "string \<Rightarrow> string list" where
  "pipe_segments [] = [[]]"
| "pipe_segments (x # xs) =
     (if x = CHR ''|'' then [] # pipe_segments xs
      else (case pipe_segments xs of [] \<Rightarrow> [[x]] | seg # segs \<Rightarrow> (x # seg) # segs))"

section \<open>Properties\<close>

subsection \<open>Tilde expansion\<close>

lemma strchr_None_iff: "strchr s c = None \<longleftrightarrow> c \<notin> set s"
  by (induction s) auto

lemma strchr_first: "c \<notin> set pre \<Longrightarrow> strchr (pre @ c # post) c = Some (length pre)"
  by (induction pre) auto

lemma expand_tilde_no_tilde:
  assumes "CHR ''~'' \<notin> set arg" and "length arg < PATH_MAX"
  shows "expand_tilde home arg = Inr arg"
  using assms by (simp add: expand_tilde_def strchr_None_iff [THEN iffD2])

lemma expand_tilde_first_tilde:
  assumes "CHR ''~'' \<notin> set pre" and "length home + length post < PATH_MAX"
  shows "expand_tilde home (pre @ CHR ''~'' # post) = Inr (home @ post)"
  using assms by (simp add: expand_tilde_def strchr_first)

lemma emit_simps:
  "cwd (emit e w) = cwd w" "trace (emit e w) = trace w @ [e]" "open_fds (emit e w) = open_fds w"
  by (simp_all add: emit_def)

text \<open>
  C10. In \<^verbatim>\<open>lush_cd\<close> and in \<^verbatim>\<open>get_expanded_path\<close> (the path expansion of the bridge's
  \<^verbatim>\<open>cd\<close>, \<^verbatim>\<open>exists\<close>, \<^verbatim>\<open>isFile\<close>, ...), tilde expansion triggers on the first \<open>~\<close> anywhere in
  the argument: the path handed to \<^verbatim>\<open>realpath\<close> is the home directory of the passwd entry
  followed by the text after that \<open>~\<close>, and every character before it is dropped. Only an
  argument without \<open>~\<close> is used verbatim. (The paths are those that fit the
  \<^verbatim>\<open>PATH_MAX\<close> buffer.)
\<close>

theorem tilde_first_occurrence:
  assumes "pw_dir w = Some home"
  shows "(CHR ''~'' \<notin> set pre \<and> length home + length post < PATH_MAX \<longrightarrow>
           get_expanded_path w (Some (pre @ CHR ''~'' # post)) = Return (realpath w (cwd w) (home @ post)) w
         \<and> lush_cd w ((c # Some (pre @ CHR ''~'' # post) # rest) # stages) =
             (case realpath w (cwd w) (home @ post) of
                None \<Rightarrow> Return 1 (emit (Perror ''realpath'') w)
              | Some p \<Rightarrow> if chdir_ok w p then Return 1 (w\<lparr>cwd := p\<rparr>)
                          else Return 1 (emit (Perror ''lush: cd'') w)))
       \<and> (CHR ''~'' \<notin> set arg \<and> length arg < PATH_MAX \<longrightarrow>
           get_expanded_path w (Some arg) = Return (realpath w (cwd w) arg) w
         \<and> lush_cd w ((c # Some arg # rest) # stages) =
             (case realpath w (cwd w) arg of
                None \<Rightarrow> Return 1 (emit (Perror ''realpath'') w)
              | Some p \<Rightarrow> if chdir_ok w p then Return 1 (w\<lparr>cwd := p\<rparr>)
                          else Return 1 (emit (Perror ''lush: cd'') w)))"
  using assms
  by (auto simp: get_expanded_path_def lush_cd_def arg_at_def expand_tilde_first_tilde
        expand_tilde_no_tilde sys_chdir_def split: option.splits)

theorem tilde_first_occurrence_witness:
  "get_expanded_path demo_world (Some ''abc~/x'') = Return (Some ''/home/u/x'') demo_world
   \<and> lush_cd demo_world [[Some ''cd'', Some ''abc~/x'']] = Return 1 (demo_world\<lparr>cwd := ''/home/u/x''\<rparr>)
   \<and> get_expanded_path demo_world (Some ''/tmp'') = Return (Some ''/tmp'') demo_world
   \<and> lush_cd demo_world [[Some ''cd'', Some ''/nowhere'']] = Return 1 (emit (Perror ''realpath'') demo_world)"
  using tilde_first_occurrence [of demo_world "''/home/u''" "''abc''" "''/x''" "Some ''cd''" "[]" "[]" "''/tmp''"]
    tilde_first_occurrence [of demo_world "''/home/u''" "''abc''" "''/x''" "Some ''cd''" "[]" "[]" "''/nowhere''"]
  by (simp add: demo_world_def PATH_MAX_def)

subsection \<open>The \<^verbatim>\<open>cd\<close> builtin\<close>

text \<open>
  C8 as the specification states it fails: a path that \<^verbatim>\<open>realpath\<close> resolves need not be a
  directory the process may enter. In the concrete world \<open>/etc/passwd\<close> resolves, \<^verbatim>\<open>chdir\<close>
  fails, the working directory stays \<open>/tmp\<close> and \<open>lush: cd\<close> is reported.
\<close>

theorem cd_resolved_counterexample:
  "realpath demo_world (cwd demo_world) ''/etc/passwd'' = Some ''/etc/passwd''
   \<and> lush_cd demo_world [[Some ''cd'', Some ''/etc/passwd'']] = Return 1 (emit (Perror ''lush: cd'') demo_world)
   \<and> cwd (emit (Perror ''lush: cd'') demo_world) = ''/tmp''"
  by (simp add: lush_cd_def demo_world_def arg_at_def expand_tilde_def PATH_MAX_def sys_chdir_def emit_def)

text \<open>
  C8, amended. For every invocation of \<^verbatim>\<open>cd\<close> with a passwd entry and a path argument whose
  tilde-expanded form fits \<^verbatim>\<open>PATH_MAX\<close>: when \<^verbatim>\<open>realpath\<close> cannot resolve the path, \<open>realpath\<close>
  is reported and the working directory is unchanged; when it resolves and \<^verbatim>\<open>chdir\<close> to the
  canonical path succeeds, the working directory is the canonical path and nothing is
  reported; when it resolves and \<^verbatim>\<open>chdir\<close> fails, \<open>lush: cd\<close> is reported and the working
  directory is unchanged. The builtin returns 1 in each case.
\<close>

theorem cd_outcomes:
  assumes "pw_dir w = Some home" and "expand_tilde home arg = Inr path"
  shows "(realpath w (cwd w) path = None \<longrightarrow>
            lush_cd w ((c # Some arg # rest) # stages) = Return 1 (emit (Perror ''realpath'') w)
          \<and> cwd (emit (Perror ''realpath'') w) = cwd w)
       \<and> (\<forall>p. realpath w (cwd w) path = Some p \<and> chdir_ok w p \<longrightarrow>
            lush_cd w ((c # Some arg # rest) # stages) = Return 1 (w\<lparr>cwd := p\<rparr>)
          \<and> trace (w\<lparr>cwd := p\<rparr>) = trace w)
       \<and> (\<forall>p. realpath w (cwd w) path = Some p \<and> \<not> chdir_ok w p \<longrightarrow>
            lush_cd w ((c # Some arg # rest) # stages) = Return 1 (emit (Perror ''lush: cd'') w)
          \<and> cwd (emit (Perror ''lush: cd'') w) = cwd w)"
  using assms by (simp add: lush_cd_def arg_at_def sys_chdir_def emit_simps)

theorem cd_outcomes_witness:
  "lush_cd demo_world [[Some ''cd'', Some ''/nowhere'']] = Return 1 (emit (Perror ''realpath'') demo_world)
   \<and> lush_cd demo_world [[Some ''cd'', Some ''~/x'']] = Return 1 (demo_world\<lparr>cwd := ''/home/u/x''\<rparr>)
   \<and> lush_cd demo_world [[Some ''cd'', Some ''/etc/passwd'']] = Return 1 (emit (Perror ''lush: cd'') demo_world)"
proof -
  have home: "pw_dir demo_world = Some ''/home/u''"
    by (simp add: demo_world_def)
  have e1: "expand_tilde ''/home/u'' ''/nowhere'' = Inr ''/nowhere''"
    and e2: "expand_tilde ''/home/u'' ''~/x'' = Inr ''/home/u/x''"
    and e3: "expand_tilde ''/home/u'' ''/etc/passwd'' = Inr ''/etc/passwd''"
    by (simp_all add: expand_tilde_def PATH_MAX_def)
  show ?thesis
    using cd_outcomes [OF home e1, of "Some ''cd''" "[]" "[]"]
      cd_outcomes [OF home e2, of "Some ''cd''" "[]" "[]"]
      cd_outcomes [OF home e3, of "Some ''cd''" "[]" "[]"]
    by (simp add: demo_world_def)
qed

subsection \<open>The line editor\<close>

lemma strlen_decomp:
  assumes "m = txt @ NUL # rest" and "NUL \<notin> set txt" and "p \<le> length txt"
  shows "strlen m p = length txt - p" and "terminated m p" and "cstring m p = drop p txt"
proof -
  have "takeWhile (\<lambda>x. x \<noteq> NUL) (drop p txt @ NUL # rest) = drop p txt"
    using assms(2) by (intro takeWhile_tail [THEN trans, OF _ takeWhile_eq_all_conv [THEN iffD2]] )
      (auto dest: in_set_dropD)
  then show "strlen m p = length txt - p" "cstring m p = drop p txt"
    using assms by (simp_all add: strlen_def cstring_def)
  then show "terminated m p"
    using assms by (simp add: terminated_def)
qed

lemma terminated_decomp:
  assumes "terminated m 0"
  shows "\<exists>txt rest. m = txt @ NUL # rest \<and> NUL \<notin> set txt \<and> strlen m 0 = length txt"
proof -
  let ?t = "takeWhile (\<lambda>x. x \<noteq> NUL) m" and ?d = "dropWhile (\<lambda>x. x \<noteq> NUL) m"
  from assms have "length ?t < length m"
    by (simp add: terminated_def strlen_def)
  then have "?d \<noteq> []"
    by (metis append_Nil2 takeWhile_dropWhile_id less_irrefl)
  then have "hd ?d = NUL"
    using hd_dropWhile [of "\<lambda>x. x \<noteq> NUL" m] by simp
  with \<open>?d \<noteq> []\<close> have "?d = NUL # tl ?d"
    by (cases ?d) simp_all
  then have "m = ?t @ NUL # tl ?d"
    by (metis takeWhile_dropWhile_id)
  moreover have "NUL \<notin> set ?t"
    by (auto dest: set_takeWhileD)
  ultimately show ?thesis
    by (auto simp: strlen_def)
qed

lemma key_left_decomp:
  "key_left ed = Inr (ed\<lparr>pos := pos ed - 1\<rparr>)"
  by (simp add: key_left_def)

lemma key_right_decomp:
  assumes "buffer ed = txt @ NUL # rest" and "NUL \<notin> set txt" and "pos ed \<le> length txt"
  shows "key_right ed = Inr (if pos ed = length txt then ed else ed\<lparr>pos := pos ed + 1\<rparr>)"
  using assms strlen_decomp [OF assms(1,2), of 0] by (simp add: key_right_def)

lemma memmove_left:
  "memmove (a @ x # b @ NUL # rest) (length a) (length a + 1) (length b + 1) = Inr (a @ b @ NUL # NUL # rest)"
  by (simp add: memmove_def)

lemma memmove_right:
  "memmove (a @ b @ NUL # r # rest) (length a + 1) (length a) (length b + 1) =
     Inr (a @ hd (b @ [NUL]) # b @ NUL # rest)"
proof -
  have "drop (length (a @ b @ [NUL, r])) ((a @ b @ [NUL, r]) @ rest) = rest"
    by (rule append_eq_conv_conj [THEN iffD1, THEN conjunct2, symmetric]) (rule refl)
  then have "drop (length a + 1 + (length b + 1)) (a @ b @ NUL # r # rest) = rest"
    by (simp add: add.commute add.left_commute)
  moreover have "take (length a + 1) (a @ b @ NUL # r # rest) = a @ [hd (b @ [NUL])]"
    by (cases b) simp_all
  moreover have "take (length b + 1) (drop (length a) (a @ b @ NUL # r # rest)) = b @ [NUL]"
    by simp
  ultimately show ?thesis
    unfolding memmove_def by simp
qed

lemma key_delete_decomp:
  assumes "buffer ed = txt @ NUL # rest" and "NUL \<notin> set txt" and "pos ed \<le> length txt"
  shows "key_delete ed =
    Inr (if pos ed = length txt then ed
         else ed\<lparr>buffer := (take (pos ed) txt @ drop (pos ed + 1) txt) @ NUL # NUL # rest\<rparr>)"
proof (cases "pos ed = length txt")
  case True
  then show ?thesis
    using strlen_decomp [OF assms(1,2), of 0] by (simp add: key_delete_def)
next
  case False
  with assms(3) have lt: "pos ed < length txt" by simp
  define a b where "a = take (pos ed) txt" and "b = drop (pos ed + 1) txt"
  have txt_eq: "txt = a @ txt ! pos ed # b" and la: "length a = pos ed"
    and lb: "length b = length txt - (pos ed + 1)"
    using lt by (simp_all add: a_def b_def id_take_nth_drop [symmetric])
  have s1: "strlen (buffer ed) (pos ed + 1) = length b"
    and t1: "terminated (buffer ed) (pos ed + 1)"
    using lt lb strlen_decomp [OF assms(1,2), of "pos ed + 1"] by simp_all
  have "buffer ed = a @ txt ! pos ed # b @ NUL # rest"
    using assms(1) txt_eq by simp
  then have "memmove (buffer ed) (pos ed) (pos ed + 1) (length b + 1) = Inr (a @ b @ NUL # NUL # rest)"
    using memmove_left [of a "txt ! pos ed" b rest] la by simp
  then show ?thesis
    using lt s1 t1 strlen_decomp [OF assms(1,2), of 0] by (simp add: key_delete_def a_def b_def)
qed

lemma key_backspace_decomp:
  assumes "buffer ed = txt @ NUL # rest" and "NUL \<notin> set txt" and "pos ed \<le> length txt"
  shows "key_backspace ed =
    Inr (if pos ed = 0 then ed
         else ed\<lparr>buffer := (take (pos ed - 1) txt @ drop (pos ed) txt) @ NUL # NUL # rest,
                 pos := pos ed - 1\<rparr>)"
proof (cases "pos ed = 0")
  case True
  then show ?thesis by (simp add: key_backspace_def)
next
  case False
  define a b where "a = take (pos ed - 1) txt" and "b = drop (pos ed) txt"
  have lt: "pos ed - 1 < length txt"
    using False assms(3) by simp
  have txt_eq: "txt = a @ txt ! (pos ed - 1) # b" and la: "length a = pos ed - 1"
    and lb: "length b = length txt - pos ed"
    using lt False id_take_nth_drop [OF lt] by (simp_all add: a_def b_def)
  have "buffer ed = a @ txt ! (pos ed - 1) # b @ NUL # rest"
    using assms(1) txt_eq by simp
  then have "memmove (buffer ed) (pos ed - 1) (pos ed) (length b + 1) = Inr (a @ b @ NUL # NUL # rest)"
    using memmove_left [of a "txt ! (pos ed - 1)" b rest] la False by simp
  then show ?thesis
    using False lb strlen_decomp [OF assms] by (simp add: key_backspace_def a_def b_def)
qed

lemma key_insert_decomp:
  assumes "buffer ed = txt @ NUL # r # rest" and "NUL \<notin> set txt" and "pos ed \<le> length txt"
    and "pos ed < BUFFER_SIZE - 1"
  shows "key_insert x ed =
    Inr (ed\<lparr>buffer := (take (pos ed) txt @ x # drop (pos ed) txt) @ NUL # rest, pos := pos ed + 1\<rparr>)"
proof -
  define a b where "a = take (pos ed) txt" and "b = drop (pos ed) txt"
  have txt_eq: "txt = a @ b" and la: "length a = pos ed" and lb: "length b = length txt - pos ed"
    using assms(3) by (simp_all add: a_def b_def)
  have "buffer ed = a @ b @ NUL # r # rest"
    using assms(1) txt_eq by simp
  then have "memmove (buffer ed) (pos ed + 1) (pos ed) (length b + 1) =
      Inr (a @ hd (b @ [NUL]) # b @ NUL # rest)"
    using memmove_right [of a b r rest] la by simp
  moreover have "(a @ hd (b @ [NUL]) # b @ NUL # rest)[pos ed := x] = a @ x # b @ NUL # rest"
    using la by (simp add: list_update_append)
  ultimately show ?thesis
    using assms(4) lb strlen_decomp [OF assms(1,2,3)] by (simp add: key_insert_def a_def b_def)
qed

lemma editor_inv_decomp:
  assumes "buffer ed = txt @ NUL # rest" and "NUL \<notin> set txt"
    and "length (buffer ed) = BUFFER_SIZE" and "pos ed \<le> length txt"
  shows "editor_inv ed" and "cstring (buffer ed) 0 = txt" and "strlen (buffer ed) 0 = length txt"
  using assms strlen_decomp [OF assms(1,2), of 0] by (simp_all add: editor_inv_def)

text \<open>
  What the editing operations keep. From a state where the cursor is between 0 and the
  length of the text, left arrow and backspace do nothing at cursor 0, right arrow and
  forward-delete do nothing at the end of the text, and inserting a character other than
  NUL advances the cursor by one as long as the buffer holds fewer than \<open>BUFFER_SIZE - 1\<close>
  characters. With the cursor at \<open>BUFFER_SIZE - 1\<close> an insertion is rejected and changes
  nothing. Nothing is said here of an insertion into a full buffer with the cursor before
  the end of the text.
\<close>

theorem editing_keeps_cursor_in_text:
  assumes "editor_inv ed"
  shows "(\<exists>ed'. key_left ed = Inr ed' \<and> editor_inv ed' \<and> buffer ed' = buffer ed \<and> pos ed' = pos ed - 1)
       \<and> (\<exists>ed'. key_right ed = Inr ed' \<and> editor_inv ed' \<and> buffer ed' = buffer ed
             \<and> pos ed' = (if pos ed = strlen (buffer ed) 0 then pos ed else pos ed + 1))
       \<and> (\<exists>ed'. key_backspace ed = Inr ed' \<and> editor_inv ed' \<and> pos ed' = pos ed - 1
             \<and> cstring (buffer ed') 0 =
                 take (pos ed - 1) (cstring (buffer ed) 0) @ drop (pos ed) (cstring (buffer ed) 0))
       \<and> (\<exists>ed'. key_delete ed = Inr ed' \<and> editor_inv ed' \<and> pos ed' = pos ed
             \<and> cstring (buffer ed') 0 =
                 take (pos ed) (cstring (buffer ed) 0) @ drop (pos ed + 1) (cstring (buffer ed) 0))
       \<and> (pos ed = 0 \<longrightarrow> key_left ed = Inr ed \<and> key_backspace ed = Inr ed)
       \<and> (pos ed = strlen (buffer ed) 0 \<longrightarrow> key_right ed = Inr ed \<and> key_delete ed = Inr ed)
       \<and> (strlen (buffer ed) 0 < BUFFER_SIZE - 1 \<and> x \<noteq> NUL \<longrightarrow>
            (\<exists>ed'. key_insert x ed = Inr ed' \<and> editor_inv ed' \<and> pos ed' = pos ed + 1
               \<and> cstring (buffer ed') 0 =
                   take (pos ed) (cstring (buffer ed) 0) @ x # drop (pos ed) (cstring (buffer ed) 0)))
       \<and> (pos ed = BUFFER_SIZE - 1 \<longrightarrow> key_insert x ed = Inr ed)"
proof -
  from assms obtain t rest where buf: "buffer ed = t @ NUL # rest" and nul: "NUL \<notin> set t"
    and len: "strlen (buffer ed) 0 = length t"
    using terminated_decomp [of "buffer ed"] by (auto simp: editor_inv_def)
  from assms len have size: "length (buffer ed) = BUFFER_SIZE" and p: "pos ed \<le> length t"
    by (simp_all add: editor_inv_def)
  have cs: "cstring (buffer ed) 0 = t"
    using editor_inv_decomp(2) [OF buf nul size p] .
  have left: "key_left ed = Inr (ed\<lparr>pos := pos ed - 1\<rparr>)"
    by (rule key_left_decomp)
  have "editor_inv (ed\<lparr>pos := pos ed - 1\<rparr>)"
    using assms by (auto simp: editor_inv_def)
  with left have c1: "\<exists>ed'. key_left ed = Inr ed' \<and> editor_inv ed' \<and> buffer ed' = buffer ed \<and> pos ed' = pos ed - 1"
    by simp
  have c2: "\<exists>ed'. key_right ed = Inr ed' \<and> editor_inv ed' \<and> buffer ed' = buffer ed
             \<and> pos ed' = (if pos ed = strlen (buffer ed) 0 then pos ed else pos ed + 1)"
    using key_right_decomp [OF buf nul p] assms p len by (auto simp: editor_inv_def)
  have c3: "\<exists>ed'. key_backspace ed = Inr ed' \<and> editor_inv ed' \<and> pos ed' = pos ed - 1
             \<and> cstring (buffer ed') 0 = take (pos ed - 1) t @ drop (pos ed) t"
  proof (cases "pos ed = 0")
    case True
    then show ?thesis
      using key_backspace_decomp [OF buf nul p] assms cs by simp
  next
    case False
    let ?ed = "ed\<lparr>buffer := (take (pos ed - 1) t @ drop (pos ed) t) @ NUL # NUL # rest, pos := pos ed - 1\<rparr>"
    have "NUL \<notin> set (take (pos ed - 1) t @ drop (pos ed) t)"
      using nul by (auto dest: in_set_takeD in_set_dropD)
    moreover have "buffer ?ed = (take (pos ed - 1) t @ drop (pos ed) t) @ NUL # NUL # rest"
      by simp
    moreover have "length (buffer ?ed) = BUFFER_SIZE"
      using size buf p False by simp
    moreover have "pos ?ed \<le> length (take (pos ed - 1) t @ drop (pos ed) t)"
      using p by simp
    ultimately have "editor_inv ?ed"
      and "cstring (buffer ?ed) 0 = take (pos ed - 1) t @ drop (pos ed) t"
      using editor_inv_decomp [of ?ed "take (pos ed - 1) t @ drop (pos ed) t" "NUL # rest"]
      by blast+
    then show ?thesis
      using key_backspace_decomp [OF buf nul p] False by simp
  qed
  have c4: "\<exists>ed'. key_delete ed = Inr ed' \<and> editor_inv ed' \<and> pos ed' = pos ed
             \<and> cstring (buffer ed') 0 = take (pos ed) t @ drop (pos ed + 1) t"
  proof (cases "pos ed = length t")
    case True
    then show ?thesis
      using key_delete_decomp [OF buf nul p] assms cs by simp
  next
    case False
    let ?ed = "ed\<lparr>buffer := (take (pos ed) t @ drop (pos ed + 1) t) @ NUL # NUL # rest\<rparr>"
    have "NUL \<notin> set (take (pos ed) t @ drop (pos ed + 1) t)"
      using nul by (auto dest: in_set_takeD in_set_dropD)
    moreover have "buffer ?ed = (take (pos ed) t @ drop (pos ed + 1) t) @ NUL # NUL # rest"
      by simp
    moreover have "length (buffer ?ed) = BUFFER_SIZE"
      using size buf p False by simp
    moreover have "pos ?ed \<le> length (take (pos ed) t @ drop (pos ed + 1) t)"
      using p False by simp
    ultimately have "editor_inv ?ed"
      and "cstring (buffer ?ed) 0 = take (pos ed) t @ drop (pos ed + 1) t"
      using editor_inv_decomp [of ?ed "take (pos ed) t @ drop (pos ed + 1) t" "NUL # rest"]
      by blast+
    then show ?thesis
      using key_delete_decomp [OF buf nul p] False by simp
  qed
  have c5: "pos ed = 0 \<longrightarrow> key_left ed = Inr ed \<and> key_backspace ed = Inr ed"
    by (simp add: key_left_def key_backspace_def)
  have c6: "pos ed = strlen (buffer ed) 0 \<longrightarrow> key_right ed = Inr ed \<and> key_delete ed = Inr ed"
    using key_right_decomp [OF buf nul p] key_delete_decomp [OF buf nul p] len by simp
  have c7: "\<exists>ed'. key_insert x ed = Inr ed' \<and> editor_inv ed' \<and> pos ed' = pos ed + 1
               \<and> cstring (buffer ed') 0 = take (pos ed) t @ x # drop (pos ed) t"
    if room: "strlen (buffer ed) 0 < BUFFER_SIZE - 1" and x: "x \<noteq> NUL"
  proof -
    from room len size buf obtain r rest' where rest: "rest = r # rest'"
      by (cases rest) auto
    let ?ed = "ed\<lparr>buffer := (take (pos ed) t @ x # drop (pos ed) t) @ NUL # rest', pos := pos ed + 1\<rparr>"
    have ins: "key_insert x ed = Inr ?ed"
      using key_insert_decomp [of ed t r rest' x] buf rest nul p room len by simp
    have "NUL \<notin> set (take (pos ed) t @ x # drop (pos ed) t)"
      using nul x by (auto dest: in_set_takeD in_set_dropD)
    moreover have "buffer ?ed = (take (pos ed) t @ x # drop (pos ed) t) @ NUL # rest'"
      by simp
    moreover have "length (buffer ?ed) = BUFFER_SIZE"
      using size buf p rest by simp
    moreover have "pos ?ed \<le> length (take (pos ed) t @ x # drop (pos ed) t)"
      using p by simp
    ultimately have "editor_inv ?ed"
      and "cstring (buffer ?ed) 0 = take (pos ed) t @ x # drop (pos ed) t"
      using editor_inv_decomp [of ?ed "take (pos ed) t @ x # drop (pos ed) t" rest']
      by blast+
    with ins show ?thesis by simp
  qed
  have c8: "pos ed = BUFFER_SIZE - 1 \<longrightarrow> key_insert x ed = Inr ed"
    by (simp add: key_insert_def)
  show ?thesis
    using c1 c2 c3 c4 c5 c6 c7 c8 unfolding cs by blast
qed

lemma replicate_head: "0 < n \<Longrightarrow> replicate n x = x # replicate (n - 1) x"
  by (cases n) simp_all

lemma line_buffer_decomp:
  "length s < BUFFER_SIZE \<Longrightarrow> line_buffer s = s @ NUL # replicate (BUFFER_SIZE - length s - 1) NUL"
  by (simp add: line_buffer_def replicate_head)

theorem editing_keeps_cursor_in_text_witness:
  "key_left \<lparr>buffer = line_buffer ''ls'', pos = 0\<rparr> = Inr \<lparr>buffer = line_buffer ''ls'', pos = 0\<rparr>
   \<and> key_backspace \<lparr>buffer = line_buffer ''ls'', pos = 0\<rparr> = Inr \<lparr>buffer = line_buffer ''ls'', pos = 0\<rparr>
   \<and> key_right \<lparr>buffer = line_buffer ''ls'', pos = 2\<rparr> = Inr \<lparr>buffer = line_buffer ''ls'', pos = 2\<rparr>
   \<and> key_delete \<lparr>buffer = line_buffer ''ls'', pos = 2\<rparr> = Inr \<lparr>buffer = line_buffer ''ls'', pos = 2\<rparr>
   \<and> (\<exists>ed'. key_insert (CHR ''x'') \<lparr>buffer = line_buffer ''ls'', pos = 0\<rparr> = Inr ed' \<and> editor_inv ed'
          \<and> pos ed' = 1 \<and> cstring (buffer ed') 0 = ''xls'')
   \<and> key_insert (CHR ''x'') \<lparr>buffer = line_buffer (replicate 1023 (CHR ''a'')), pos = 1023\<rparr>
       = Inr \<lparr>buffer = line_buffer (replicate 1023 (CHR ''a'')), pos = 1023\<rparr>"
proof -
  let ?a = "\<lparr>buffer = line_buffer ''ls'', pos = 0\<rparr>"
  let ?b = "\<lparr>buffer = line_buffer ''ls'', pos = 2\<rparr>"
  let ?c = "\<lparr>buffer = line_buffer (replicate 1023 (CHR ''a'')), pos = 1023\<rparr>"
  have ls: "line_buffer ''ls'' = ''ls'' @ NUL # replicate 1021 NUL"
    using line_buffer_decomp [of "''ls''"] by (simp add: BUFFER_SIZE_def)
  have full: "line_buffer (replicate 1023 (CHR ''a'')) = replicate 1023 (CHR ''a'') @ NUL # []"
    using line_buffer_decomp [of "replicate 1023 (CHR ''a'')"] by (simp add: BUFFER_SIZE_def)
  have a: "editor_inv ?a" "cstring (buffer ?a) 0 = ''ls''" "strlen (buffer ?a) 0 = 2"
    using editor_inv_decomp [of ?a "''ls''" "replicate 1021 NUL"] ls
    by (simp_all add: BUFFER_SIZE_def NUL_def)
  have b: "editor_inv ?b" "strlen (buffer ?b) 0 = 2"
    using editor_inv_decomp [of ?b "''ls''" "replicate 1021 NUL"] ls
    by (simp_all add: BUFFER_SIZE_def NUL_def)
  have c: "editor_inv ?c"
    using editor_inv_decomp [of ?c "replicate 1023 (CHR ''a'')" "[]"] full
    by (simp_all add: BUFFER_SIZE_def NUL_def)
  show ?thesis
    using editing_keeps_cursor_in_text [OF a(1), of "CHR ''x''"]
      editing_keeps_cursor_in_text [OF b(1), of "CHR ''x''"]
      editing_keeps_cursor_in_text [OF c, of "CHR ''x''"] a(2,3) b(2)
    by (simp add: BUFFER_SIZE_def NUL_def)
qed

lemma typed_insert:
  assumes "k < BUFFER_SIZE - 1"
  shows "key_insert (CHR ''a'') \<lparr>buffer = replicate k (CHR ''a'') @ NUL # replicate (BUFFER_SIZE - 1 - k) NUL, pos = k\<rparr>
    = Inr \<lparr>buffer = replicate (Suc k) (CHR ''a'') @ NUL # replicate (BUFFER_SIZE - 1 - Suc k) NUL, pos = Suc k\<rparr>"
proof -
  have "replicate (BUFFER_SIZE - 1 - k) NUL = NUL # replicate (BUFFER_SIZE - 1 - Suc k) NUL"
    using assms by (simp add: replicate_head)
  then show ?thesis
    using assms
      key_insert_decomp [of "\<lparr>buffer = replicate k (CHR ''a'') @ NUL # replicate (BUFFER_SIZE - 1 - k) NUL, pos = k\<rparr>"
        "replicate k (CHR ''a'')" NUL "replicate (BUFFER_SIZE - 1 - Suc k) NUL" "CHR ''a''"]
    by (simp add: NUL_def replicate_append_same)
qed

lemma read_loop_typed:
  assumes "k + j \<le> BUFFER_SIZE - 1"
  shows "read_loop (j + n) (replicate j (CHR ''a'') @ rest)
           \<lparr>buffer = replicate k (CHR ''a'') @ NUL # replicate (BUFFER_SIZE - 1 - k) NUL, pos = k\<rparr>
       = read_loop n rest
           \<lparr>buffer = replicate (k + j) (CHR ''a'') @ NUL # replicate (BUFFER_SIZE - 1 - (k + j)) NUL, pos = k + j\<rparr>"
  using assms
proof (induction j arbitrary: k)
  case 0
  show ?case by simp
next
  case (Suc j)
  have "k < BUFFER_SIZE - 1" using Suc.prems by simp
  then show ?case
    using Suc.IH [of "Suc k"] Suc.prems typed_insert [of k]
    by (simp add: getchar_def char_of_int_c_def)
qed

lemma full_buffer_insert:
  "key_insert x \<lparr>buffer = replicate 1023 (CHR ''a'') @ [NUL], pos = 1022\<rparr> = Inl Out_Of_Bounds"
proof -
  have "strlen (replicate 1023 (CHR ''a'') @ [NUL]) 1022 = 1"
    and "terminated (replicate 1023 (CHR ''a'') @ [NUL]) 1022"
    using strlen_decomp [of "replicate 1023 (CHR ''a'') @ [NUL]" "replicate 1023 (CHR ''a'')" "[]" 1022]
    by (simp_all add: NUL_def)
  then show ?thesis
    by (simp add: key_insert_def memmove_def BUFFER_SIZE_def)
qed

text \<open>
  C9. The insertion branch tests the cursor, \<^verbatim>\<open>pos < BUFFER_SIZE - 1\<close>, and not the length of
  the text. With 1023 characters in the buffer and the cursor one to the left of their
  end, the cursor is between 0 and the length of the text, and inserting one more
  character makes \<^verbatim>\<open>memmove\<close> write \<^verbatim>\<open>buffer[1024]\<close>, one byte behind the buffer: the operation
  does not keep the invariant, it leaves the buffer. \<^verbatim>\<open>lush_read_line\<close> gets there from its
  initial state on 1023 letters, a left arrow and one more letter.
\<close>

theorem insert_into_full_line_overruns_buffer:
  "editor_inv \<lparr>buffer = replicate 1023 (CHR ''a'') @ [NUL], pos = 1022\<rparr>
   \<and> key_insert (CHR ''b'') \<lparr>buffer = replicate 1023 (CHR ''a'') @ [NUL], pos = 1022\<rparr> = Inl Out_Of_Bounds
   \<and> lush_read_line (1025 + n) (replicate 1023 (CHR ''a'') @ [CHR 0x1B, CHR ''['', CHR ''D'', CHR ''b''] @ rest)
       = Some (Inl Out_Of_Bounds)"
proof -
  have inv: "editor_inv \<lparr>buffer = replicate 1023 (CHR ''a'') @ [NUL], pos = 1022\<rparr>"
    by (rule editor_inv_decomp(1) [of _ "replicate 1023 (CHR ''a'')" "[]"])
      (simp_all add: BUFFER_SIZE_def NUL_def)
  have "lush_read_line (1025 + n) (replicate 1023 (CHR ''a'') @ [CHR 0x1B, CHR ''['', CHR ''D'', CHR ''b''] @ rest)
      = read_loop (1023 + (2 + n)) (replicate 1023 (CHR ''a'') @ ([CHR 0x1B, CHR ''['', CHR ''D'', CHR ''b''] @ rest))
          \<lparr>buffer = replicate 0 (CHR ''a'') @ NUL # replicate (BUFFER_SIZE - 1 - 0) NUL, pos = 0\<rparr>"
    by (simp add: lush_read_line_def BUFFER_SIZE_def replicate_head)
  also have "\<dots> = read_loop (2 + n) ([CHR 0x1B, CHR ''['', CHR ''D'', CHR ''b''] @ rest)
      \<lparr>buffer = replicate (0 + 1023) (CHR ''a'') @ NUL # replicate (BUFFER_SIZE - 1 - (0 + 1023)) NUL, pos = 0 + 1023\<rparr>"
    by (rule read_loop_typed) (simp add: BUFFER_SIZE_def)
  also have "\<dots> = read_loop (Suc (Suc n)) (CHR 0x1B # CHR ''['' # CHR ''D'' # CHR ''b'' # rest)
      \<lparr>buffer = replicate 1023 (CHR ''a'') @ [NUL], pos = 1023\<rparr>"
    by (simp add: BUFFER_SIZE_def)
  also have "\<dots> = Some (Inl Out_Of_Bounds)"
    using full_buffer_insert [of "CHR ''b''"]
    by (simp add: getchar_def char_of_int_c_def key_left_def)
  finally show ?thesis
    using inv full_buffer_insert [of "CHR ''b''"] by simp
qed

lemma eof_insert:
  assumes "k < BUFFER_SIZE - 1"
  shows "key_insert (CHR 0xFF) \<lparr>buffer = replicate k (CHR 0xFF) @ NUL # replicate (BUFFER_SIZE - 1 - k) NUL, pos = k\<rparr>
    = Inr \<lparr>buffer = replicate (Suc k) (CHR 0xFF) @ NUL # replicate (BUFFER_SIZE - 1 - Suc k) NUL, pos = Suc k\<rparr>"
proof -
  have "replicate (BUFFER_SIZE - 1 - k) NUL = NUL # replicate (BUFFER_SIZE - 1 - Suc k) NUL"
    using assms by (simp add: replicate_head)
  then show ?thesis
    using assms
      key_insert_decomp [of "\<lparr>buffer = replicate k (CHR 0xFF) @ NUL # replicate (BUFFER_SIZE - 1 - k) NUL, pos = k\<rparr>"
        "replicate k (CHR 0xFF)" NUL "replicate (BUFFER_SIZE - 1 - Suc k) NUL" "CHR 0xFF"]
    by (simp add: NUL_def replicate_append_same)
qed

lemma read_loop_at_eof:
  assumes "k \<le> BUFFER_SIZE - 1"
  shows "read_loop n [] \<lparr>buffer = replicate k (CHR 0xFF) @ NUL # replicate (BUFFER_SIZE - 1 - k) NUL, pos = k\<rparr> = None"
  using assms
proof (induction n arbitrary: k)
  case 0
  show ?case by simp
next
  case (Suc n)
  show ?case
  proof (cases "k < BUFFER_SIZE - 1")
    case True
    then show ?thesis
      using Suc.IH [of "Suc k"] eof_insert [OF True]
      by (simp add: getchar_def char_of_int_c_def)
  next
    case False
    with Suc.prems have "k = BUFFER_SIZE - 1" by simp
    then show ?thesis
      using Suc.IH [of k] by (simp add: getchar_def char_of_int_c_def key_insert_def)
  qed
qed

text \<open>
  C5. At end of input \<^verbatim>\<open>getchar\<close> returns \<^verbatim>\<open>EOF\<close> for ever; \<^verbatim>\<open>lush_read_line\<close> stores it as a
  character while there is room and goes on reading. On an empty input the loop is
  still running after any number of iterations: it never returns a line.
\<close>

theorem read_line_never_returns_at_eof:
  "lush_read_line n [] = None"
  using read_loop_at_eof [of 0 n] by (simp add: lush_read_line_def BUFFER_SIZE_def replicate_head)

lemma getchar_rest: "CHR 0x0A \<notin> set i \<Longrightarrow> getchar i = (c, i') \<Longrightarrow> CHR 0x0A \<notin> set i' \<and> c \<noteq> Some (CHR 0x0A)"
  by (cases i) (auto simp: getchar_def)

text \<open>More generally, no input without a newline makes the loop return a line.\<close>

lemma read_loop_needs_newline:
  "CHR 0x0A \<notin> set inp \<Longrightarrow> read_loop n inp ed \<noteq> Some (Inr r)"
proof (induction n arbitrary: inp ed)
  case 0
  show ?case by simp
next
  case (Suc n)
  obtain c i1 where g1: "getchar inp = (c, i1)" by (cases "getchar inp")
  obtain b i2 where g2: "getchar i1 = (b, i2)" by (cases "getchar i1")
  obtain k i3 where g3: "getchar i2 = (k, i3)" by (cases "getchar i2")
  obtain t i4 where g4: "getchar i3 = (t, i4)" by (cases "getchar i3")
  have n1: "CHR 0x0A \<notin> set i1" and c: "c \<noteq> Some (CHR 0x0A)"
    using getchar_rest [OF Suc.prems g1] by simp_all
  have n2: "CHR 0x0A \<notin> set i2" using getchar_rest [OF n1 g2] by simp
  have n3: "CHR 0x0A \<notin> set i3" using getchar_rest [OF n2 g3] by simp
  have n4: "CHR 0x0A \<notin> set i4" using getchar_rest [OF n3 g4] by simp
  have ih: "read_loop n i1 e \<noteq> Some (Inr r)" "read_loop n i3 e \<noteq> Some (Inr r)"
    "read_loop n i4 e \<noteq> Some (Inr r)" for e
    using Suc.IH n1 n3 n4 by simp_all
  show ?case
    using c ih by (simp add: g1 g2 g3 g4 split: sum.splits)
qed

subsection \<open>Evaluations of the tokenizer, the dispatcher and the executor\<close>

text \<open>
  C1. For the line \<open>echo $NOPE\<close> with \<open>NOPE\<close> unset, \<^verbatim>\<open>lush_split_args\<close> stores the \<^verbatim>\<open>NULL\<close> that
  \<^verbatim>\<open>getenv\<close> returned as the second entry of the argument vector (and a pointer to the
  empty string behind the line as the third). With \<open>NOPE\<close> set the vector has the same
  three entries, the second being the value.
\<close>

theorem unset_variable_stores_null:
  "tokenize (\<lambda>n. None) (line_buffer ''echo $NOPE'')
     = Inr ([[Some ''echo'', None, Some []]], [[Line 0, Null, Line 11]], 1)
   \<and> tokenize (\<lambda>n. if n = ''NOPE'' then Some ''v'' else None) (line_buffer ''echo $NOPE'')
     = Inr ([[Some ''echo'', Some ''v'', Some []]], [[Line 0, Env_Value ''v'', Line 11]], 1)"
  by code_simp

text \<open>
  C2. For the line \<open>time echo hi\<close>, \<^verbatim>\<open>lush_time\<close> counts one stage too many
  (\<^verbatim>\<open>while (args[i++])\<close> also counts the terminating \<^verbatim>\<open>NULL\<close>), so the executor opens a pipe,
  runs \<open>echo hi\<close> with the pipe's write end as its standard output, and then spawns a
  child for the \<^verbatim>\<open>NULL\<close> stage with standard output: \<open>hi\<close> is not written to standard output.
\<close>

theorem time_echo_hi_runs_into_a_pipe:
  "(case main_iteration demo_world (line_buffer ''time echo hi'') of
      Return u w \<Rightarrow> trace w | Exit c w \<Rightarrow> [] | Fault f \<Rightarrow> [])
   = [Pipe_Open 3 4, Spawn (Some [Some ''echo'', Some ''hi'']) 0 4, Close 4,
      Spawn None 3 1, Close 3, Close_EBADF 4, Print_Time]"
  by code_simp

text \<open>
  C6. For the two stages of \<open>echo hello | cat\<close> the executor closes the write end of the
  pipe after the first stage and again in its last loop, where \<^verbatim>\<open>close\<close> fails with
  \<^verbatim>\<open>EBADF\<close>. For three stages and room for one pipe only, the second \<^verbatim>\<open>pipe\<close> fails and the
  executor returns 0 with both ends of the first pipe open.
\<close>

theorem pipe_ends_closed_twice_or_leaked:
  "(case lush_execute_pipeline demo_world [[Some ''echo'', Some ''hello''], [Some ''cat'']] 2 of
      Return rc w \<Rightarrow> Some (rc, trace w, open_fds w) | Exit c w \<Rightarrow> None | Fault f \<Rightarrow> None)
   = Some (1, [Pipe_Open 3 4, Spawn (Some [Some ''echo'', Some ''hello'']) 0 4, Close 4,
               Spawn (Some [Some ''cat'']) 3 1, Close 3, Close_EBADF 4], {0, 1, 2})
   \<and> (case lush_execute_pipeline (demo_world\<lparr>fd_limit := 6\<rparr>) [[Some ''a''], [Some ''b''], [Some ''c'']] 3 of
      Return rc w \<Rightarrow> Some (rc, trace w, open_fds w) | Exit c w \<Rightarrow> None | Fault f \<Rightarrow> None)
   = Some (0, [Pipe_Open 3 4, Perror ''pipe''], {0, 1, 2, 3, 4})"
  by code_simp

text \<open>
  C7. \<^verbatim>\<open>lush.exec("cd /nowhere")\<close>: the path does not resolve, \<^verbatim>\<open>lush_cd\<close> reports \<open>realpath\<close>
  and the working directory stays, yet \<^verbatim>\<open>l_execute_command\<close> pushes \<open>true\<close>: the boolean is
  \<^verbatim>\<open>status != -1\<close>, the status of the tokenizer.
\<close>

theorem exec_true_for_failed_cd:
  "(case l_execute_command demo_world ''cd /nowhere'' of
      Return rc w \<Rightarrow> Some (rc, cwd w, trace w) | Exit c w \<Rightarrow> None | Fault f \<Rightarrow> None)
   = Some (True, ''/tmp'', [Perror ''realpath'', Push_History ''cd''])"
  by code_simp

text \<open>
  In debug mode the message shows the command as the tokenizer left it: the blank after
  \<^verbatim>\<open>cd\<close> has become a NUL, and \<^verbatim>\<open>printf\<close> stops there.
\<close>

lemma debug_message_shows_tokenized_command:
  "(case l_execute_command (demo_world\<lparr>debug_mode := True\<rparr>) ''cd /nowhere'' of
      Return rc w \<Rightarrow> Some (rc, trace w) | Exit c w \<Rightarrow> None | Fault f \<Rightarrow> None)
   = Some (True, [Perror ''realpath'', Push_History ''cd'', Stdout ''Executed: cd, success''])"
  by code_simp

subsection \<open>Stage splitting\<close>

lemma takeWhile_bound:
  assumes "p \<le> z" and "z < length m" and "\<not> P (m ! z)"
  shows "p + length (takeWhile P (drop p m)) \<le> z"
proof (rule ccontr)
  assume "\<not> p + length (takeWhile P (drop p m)) \<le> z"
  with assms(1) have lt: "z - p < length (takeWhile P (drop p m))" by arith
  then have "takeWhile P (drop p m) ! (z - p) = drop p m ! (z - p)"
    by (rule takeWhile_nth)
  moreover have "takeWhile P (drop p m) ! (z - p) \<in> set (takeWhile P (drop p m))"
    using lt by simp
  ultimately have "P (drop p m ! (z - p))"
    by (auto dest: set_takeWhileD)
  then show False
    using assms by simp
qed

lemma pipe_segments_not_Nil [simp]: "pipe_segments s \<noteq> []"
  by (cases s) (simp_all split: list.splits)

lemma pipe_segments_bar_free:
  "CHR ''|'' \<notin> set tok \<Longrightarrow> pipe_segments (tok @ CHR ''|'' # t) = tok # pipe_segments t"
  by (induction tok) (auto split: list.splits)

lemma pipe_segments_single: "CHR ''|'' \<notin> set tok \<Longrightarrow> pipe_segments tok = [tok]"
  by (induction tok) (auto split: list.splits)

lemma pipe_segments_bars:
  "\<forall>x \<in> set bars. x = CHR ''|'' \<Longrightarrow>
     filter (\<lambda>x. x \<noteq> []) (pipe_segments (bars @ t)) = filter (\<lambda>x. x \<noteq> []) (pipe_segments t)"
  by (induction bars) auto

lemma length_pipe_segments: "length (pipe_segments s) = count_list s (CHR ''|'') + 1"
  by (induction s) (auto split: list.splits)

text \<open>The three outcomes of one \<^verbatim>\<open>strtok\<close> call.\<close>

lemma strtok_pipe_none:
  assumes "\<forall>x \<in> set bars. x = CHR ''|''"
  shows "strtok_pipe (pre @ bars @ NUL # rest) (length pre) = Inr None"
proof -
  have "takeWhile (\<lambda>x. x = CHR ''|'') (bars @ NUL # rest) = bars"
    using assms by (simp add: takeWhile_tail NUL_def)
  then show ?thesis
    by (simp add: strtok_pipe_def nth_append)
qed

lemma strtok_pipe_token:
  assumes "\<forall>x \<in> set bars. x = CHR ''|''" and "tok \<noteq> []"
    and "CHR ''|'' \<notin> set tok" and "NUL \<notin> set tok" and "y = CHR ''|'' \<or> y = NUL"
  shows "strtok_pipe (pre @ bars @ tok @ y # rest) (length pre) =
    Inr (Some (pre @ bars @ tok @ NUL # rest, length pre + length bars,
      length pre + length bars + length tok + (if y = NUL then 0 else 1)))"
proof -
  let ?m = "pre @ bars @ tok @ y # rest"
  obtain a tok' where tok: "tok = a # tok'"
    using assms(2) by (cases tok) auto
  have "takeWhile (\<lambda>x. x = CHR ''|'') (bars @ a # tok' @ y # rest) = bars"
    using assms(1,3) tok by (subst takeWhile_tail) auto
  then have s: "length pre + length (takeWhile (\<lambda>x. x = CHR ''|'') (drop (length pre) ?m)) =
      length pre + length bars"
    using tok by simp
  have "drop (length pre + length bars) ?m = tok @ y # rest"
    by (simp add: drop_append)
  moreover have "takeWhile (\<lambda>x. x \<noteq> CHR ''|'' \<and> x \<noteq> NUL) (tok @ y # rest) = tok"
    using assms(3,4,5) by (subst takeWhile_tail) auto
  ultimately have e: "length pre + length bars +
      length (takeWhile (\<lambda>x. x \<noteq> CHR ''|'' \<and> x \<noteq> NUL) (drop (length pre + length bars) ?m)) =
      length pre + length bars + length tok"
    by simp
  have at_s: "?m ! (length pre + length bars) = a"
    using tok by (simp add: nth_append)
  have at_e: "?m ! (length pre + length bars + length tok) = y"
    by (simp add: nth_append)
  have upd: "?m[length pre + length bars + length tok := NUL] = pre @ bars @ tok @ NUL # rest"
    by (simp add: list_update_append)
  have "a \<noteq> NUL"
    using assms(4) tok by auto
  then show ?thesis
    unfolding strtok_pipe_def s Let_def e at_s at_e upd
    using assms(5) by (auto simp: NUL_def)
qed

lemma strtok_loop_count:
  assumes "NUL \<notin> set t"
    and "length cmds + length (filter (\<lambda>x. x \<noteq> []) (pipe_segments t)) \<le> 16"
  shows "\<exists>m' new. strtok_loop (pre @ t @ NUL # rest) (length pre) cmds = Inr (m', cmds @ new)
      \<and> length new = length (filter (\<lambda>x. x \<noteq> []) (pipe_segments t))
      \<and> (\<forall>c \<in> set new. length pre \<le> c \<and> c \<le> length pre + length t)
      \<and> length m' = length (pre @ t @ NUL # rest)
      \<and> (\<forall>i. (pre @ t @ NUL # rest) ! i \<noteq> CHR ''|'' \<longrightarrow> m' ! i = (pre @ t @ NUL # rest) ! i)"
  using assms
proof (induction "length t" arbitrary: t pre cmds rule: less_induct)
  case less
  define bars where "bars = takeWhile (\<lambda>x. x = CHR ''|'') t"
  define t1 where "t1 = dropWhile (\<lambda>x. x = CHR ''|'') t"
  define tok where "tok = takeWhile (\<lambda>x. x \<noteq> CHR ''|'') t1"
  define t2 where "t2 = dropWhile (\<lambda>x. x \<noteq> CHR ''|'') t1"
  have t: "t = bars @ t1" and t1: "t1 = tok @ t2"
    by (simp_all add: bars_def t1_def tok_def t2_def)
  have bars: "\<forall>x \<in> set bars. x = CHR ''|''"
    by (auto simp: bars_def dest: set_takeWhileD)
  have tok_free: "CHR ''|'' \<notin> set tok"
    by (auto simp: tok_def dest: set_takeWhileD)
  have tok_nul: "NUL \<notin> set tok"
    using less.prems(1) t t1 by auto
  have count_t: "filter (\<lambda>x. x \<noteq> []) (pipe_segments t) = filter (\<lambda>x. x \<noteq> []) (pipe_segments t1)"
    using pipe_segments_bars [OF bars, of t1] t by simp
  let ?m = "pre @ t @ NUL # rest"
  show ?case
  proof (cases "t1 = []")
    case True
    then have "strtok_pipe ?m (length pre) = Inr None"
      using strtok_pipe_none [OF bars, of pre rest] t by simp
    then have "strtok_loop ?m (length pre) cmds = Inr (?m, cmds)"
      by (subst strtok_loop.simps) simp
    moreover have "filter (\<lambda>x. x \<noteq> []) (pipe_segments t) = []"
      using count_t True by simp
    ultimately show ?thesis
      by simp
  next
    case False
    then have "hd t1 \<noteq> CHR ''|''"
      using hd_dropWhile [of "\<lambda>x. x = CHR ''|''" t] by (simp add: t1_def)
    with False have tok_ne: "tok \<noteq> []"
      by (cases t1) (simp_all add: tok_def)
    have room: "length cmds < 16"
    proof -
      have "filter (\<lambda>x. x \<noteq> []) (pipe_segments t1) \<noteq> []"
      proof (cases t2)
        case Nil
        then show ?thesis
          using t1 tok_ne pipe_segments_single [OF tok_free] by simp
      next
        case (Cons y t3)
        then have "y = CHR ''|''"
          using hd_dropWhile [of "\<lambda>x. x \<noteq> CHR ''|''" t1] by (simp add: t2_def)
        then show ?thesis
          using t1 Cons tok_ne pipe_segments_bar_free [OF tok_free, of t3] by simp
      qed
      then have "1 \<le> length (filter (\<lambda>x. x \<noteq> []) (pipe_segments t))"
        unfolding count_t by (cases "filter (\<lambda>x. x \<noteq> []) (pipe_segments t1)") simp_all
      with less.prems(2) show ?thesis by linarith
    qed
    let ?s = "length pre + length bars"
    show ?thesis
    proof (cases t2)
      case Nil
      have m: "?m = pre @ bars @ tok @ NUL # rest"
        using t t1 Nil by simp
      have "strtok_pipe ?m (length pre) = Inr (Some (?m, ?s, ?s + length tok))"
        using strtok_pipe_token [OF bars tok_ne tok_free tok_nul, of NUL pre rest] m by simp
      then have step: "strtok_loop ?m (length pre) cmds = strtok_loop ?m (?s + length tok) (cmds @ [?s])"
        using room by (subst strtok_loop.simps) simp
      have "strtok_pipe ((pre @ bars @ tok) @ [] @ NUL # rest) (length (pre @ bars @ tok)) = Inr None"
        by (rule strtok_pipe_none) simp
      then have "strtok_pipe ?m (?s + length tok) = Inr None"
        using m by (simp add: add.assoc)
      then have "strtok_loop ?m (?s + length tok) (cmds @ [?s]) = Inr (?m, cmds @ [?s])"
        by (subst strtok_loop.simps) simp
      moreover have "length (filter (\<lambda>x. x \<noteq> []) (pipe_segments t)) = 1"
        using count_t t1 Nil tok_ne pipe_segments_single [OF tok_free] by simp
      ultimately show ?thesis
        using step t by simp
    next
      case (Cons y t3)
      then have y: "y = CHR ''|''"
        using hd_dropWhile [of "\<lambda>x. x \<noteq> CHR ''|''" t1] by (simp add: t2_def)
      have m: "?m = pre @ bars @ tok @ CHR ''|'' # t3 @ NUL # rest"
        using t t1 Cons y by simp
      let ?m1 = "pre @ bars @ tok @ NUL # t3 @ NUL # rest"
      let ?pre1 = "pre @ bars @ tok @ [NUL]"
      have "strtok_pipe ?m (length pre) = Inr (Some (?m1, ?s, ?s + length tok + 1))"
        using strtok_pipe_token [OF bars tok_ne tok_free tok_nul, of "CHR ''|''" pre "t3 @ NUL # rest"] m
        by (simp add: NUL_def)
      then have step: "strtok_loop ?m (length pre) cmds = strtok_loop ?m1 (?s + length tok + 1) (cmds @ [?s])"
        using room by (subst strtok_loop.simps) simp
      have len3: "length t3 < length t"
        using t t1 Cons by simp
      have nul3: "NUL \<notin> set t3"
        using less.prems(1) t t1 Cons by simp
      have count3: "length (filter (\<lambda>x. x \<noteq> []) (pipe_segments t)) =
          Suc (length (filter (\<lambda>x. x \<noteq> []) (pipe_segments t3)))"
        using count_t t1 Cons y tok_ne pipe_segments_bar_free [OF tok_free, of t3] by simp
      then have "length (cmds @ [?s]) + length (filter (\<lambda>x. x \<noteq> []) (pipe_segments t3)) \<le> 16"
        using less.prems(2) by simp
      from less.hyps [OF len3 nul3 this, of ?pre1]
      obtain m' new where
        loop: "strtok_loop (?pre1 @ t3 @ NUL # rest) (length ?pre1) (cmds @ [?s]) = Inr (m', (cmds @ [?s]) @ new)"
        and cnt: "length new = length (filter (\<lambda>x. x \<noteq> []) (pipe_segments t3))"
        and bnd: "\<forall>c \<in> set new. length ?pre1 \<le> c \<and> c \<le> length ?pre1 + length t3"
        and len: "length m' = length (?pre1 @ t3 @ NUL # rest)"
        and same: "\<forall>i. (?pre1 @ t3 @ NUL # rest) ! i \<noteq> CHR ''|'' \<longrightarrow> m' ! i = (?pre1 @ t3 @ NUL # rest) ! i"
        by blast
      have m1: "?pre1 @ t3 @ NUL # rest = ?m1" and l1: "length ?pre1 = ?s + length tok + 1"
        by simp_all
      have res: "strtok_loop ?m (length pre) cmds = Inr (m', cmds @ (?s # new))"
        using step loop unfolding m1 l1 by simp
      have upd: "?m1 = ?m[?s + length tok := NUL]"
        unfolding m by (simp add: list_update_append)
      have same': "m' ! i = ?m ! i" if "?m ! i \<noteq> CHR ''|''" for i
      proof -
        have "i \<noteq> ?s + length tok"
          using that unfolding m by (auto simp: nth_append)
        then have "?m1 ! i = ?m ! i"
          unfolding upd by simp
        with that same show ?thesis
          unfolding m1 by simp
      qed
      have "\<forall>c \<in> set (?s # new). length pre \<le> c \<and> c \<le> length pre + length t"
        using bnd t t1 Cons by auto
      moreover have "length (?s # new) = length (filter (\<lambda>x. x \<noteq> []) (pipe_segments t))"
        using cnt count3 by simp
      moreover have "length m' = length ?m"
        using len unfolding m by simp
      ultimately show ?thesis
        using res same' by blast
    qed
  qed
qed

lemma blank_NUL [simp]: "\<not> blank NUL"
  by (simp add: blank_def NUL_def)

lemma trim_end_ok:
  assumes "q < e" and "e \<le> length m" and "\<not> blank (m ! q)"
  shows "\<exists>m'. trim_end m e = Inr m' \<and> length m' = length m \<and> (\<forall>i. \<not> blank (m ! i) \<longrightarrow> m' ! i = m ! i)"
  using assms
proof (induction e arbitrary: m)
  case 0
  then show ?case by simp
next
  case (Suc e)
  show ?case
  proof (cases "blank (m ! e)")
    case False
    then show ?thesis
      using Suc.prems by simp
  next
    case True
    with Suc.prems have q: "q < e"
      by (cases "q = e") auto
    then have "\<not> blank (m[e := NUL] ! q)"
      using Suc.prems by simp
    from Suc.IH [OF q _ this] Suc.prems(2)
    obtain m' where m': "trim_end (m[e := NUL]) e = Inr m'" "length m' = length m"
      "\<forall>i. \<not> blank (m[e := NUL] ! i) \<longrightarrow> m' ! i = m[e := NUL] ! i"
      by auto
    have "m' ! i = m ! i" if "\<not> blank (m ! i)" for i
    proof -
      from that True have "i \<noteq> e" by auto
      with that m'(3) show ?thesis by simp
    qed
    with m'(1,2) True Suc.prems(2) show ?thesis
      by simp
  qed
qed

lemma trim_stage_ok:
  assumes "c \<le> z" and "z < length m" and "m ! z = NUL"
    and "q < length m" and "\<not> blank (m ! q)" and "\<forall>i. c \<le> i \<and> i \<le> q \<longrightarrow> m ! i \<noteq> NUL"
  shows "\<exists>m' c'. trim_stage m c = Inr (m', c') \<and> length m' = length m
           \<and> (\<forall>i. \<not> blank (m ! i) \<longrightarrow> m' ! i = m ! i)"
proof -
  define c' where "c' = c + length (takeWhile blank (drop c m))"
  define e where "e = c' + strlen m c'"
  have c'z: "c' \<le> z"
    unfolding c'_def using assms(1,2,3) by (intro takeWhile_bound) simp_all
  have ez: "e \<le> z"
    unfolding e_def strlen_def using c'z assms(2,3) by (intro takeWhile_bound) simp_all
  have c_c': "c \<le> c'" and c'_e: "c' \<le> e"
    by (simp_all add: c'_def e_def)
  have at_e: "m ! e = NUL"
  proof -
    have "length (takeWhile (\<lambda>x. x \<noteq> NUL) (drop c' m)) < length (drop c' m)"
      using ez assms(2) by (simp add: e_def strlen_def)
    from nth_length_takeWhile [OF this] show ?thesis
      using ez assms(2) by (simp add: e_def strlen_def)
  qed
  have "q < e"
  proof (rule ccontr)
    assume "\<not> q < e"
    then have "e \<le> q" by simp
    with c_c' c'_e assms(6) have "m ! e \<noteq> NUL" by simp
    with at_e show False by simp
  qed
  with ez assms(2,5) obtain m' where "trim_end m e = Inr m'" "length m' = length m"
    "\<forall>i. \<not> blank (m ! i) \<longrightarrow> m' ! i = m ! i"
    using trim_end_ok [of q e m] by auto
  moreover have "terminated m c'"
    using ez assms(2) by (simp add: terminated_def e_def)
  moreover have "c' < length m"
    using c'z assms(2) by simp
  ultimately show ?thesis
    by (simp add: trim_stage_def c'_def [symmetric] e_def [symmetric])
qed

lemma trim_loop_ok:
  assumes "\<forall>c \<in> set cs. q < c \<and> c \<le> z" and "z < length m" and "m ! z = NUL"
    and "q < length m" and "\<not> blank (m ! q)"
  shows "\<exists>m' cs'. trim_loop m cs = Inr (m', cs') \<and> length cs' = length cs"
  using assms
proof (induction cs arbitrary: m)
  case Nil
  show ?case by simp
next
  case (Cons c cs)
  from Cons.prems have "\<forall>i. c \<le> i \<and> i \<le> q \<longrightarrow> m ! i \<noteq> NUL"
    by auto
  with Cons.prems obtain m1 c' where st: "trim_stage m c = Inr (m1, c')" "length m1 = length m"
    "\<forall>i. \<not> blank (m ! i) \<longrightarrow> m1 ! i = m ! i"
    using trim_stage_ok [of c z m q] by auto
  have "m1 ! z = NUL" "\<not> blank (m1 ! q)"
    using st(3) Cons.prems by simp_all
  with Cons.IH [of m1] Cons.prems st(2)
  obtain m' cs' where "trim_loop m1 cs = Inr (m', cs')" "length cs' = length cs"
    by auto
  with st(1) show ?case
    by simp
qed

lemma split_args_loop_status:
  "split_args_loop ge m cs acc = Inr (m', args, st) \<Longrightarrow>
     st = - 1 \<or> (st = int (length args) \<and> length args = length acc + length cs)"
proof (induction cs arbitrary: m acc)
  case Nil
  then show ?case by (auto split: if_splits)
next
  case (Cons c cs)
  then show ?case
    by (auto split: sum.splits prod.splits if_splits)
qed

lemma hd_pipe_segments: "hd (pipe_segments s) = takeWhile (\<lambda>x. x \<noteq> CHR ''|'') s"
  by (induction s) (auto split: list.splits)

lemma trim_loop_first_ok:
  assumes "z < length m" and "m ! z = NUL" and "q < z" and "\<not> blank (m ! q)"
    and "\<forall>i \<le> q. m ! i \<noteq> NUL" and "\<forall>c \<in> set new. q < c \<and> c \<le> z"
  shows "\<exists>m' cs'. trim_loop m (0 # new) = Inr (m', cs') \<and> length cs' = Suc (length new)"
proof -
  from assms obtain m1 c' where st: "trim_stage m 0 = Inr (m1, c')" "length m1 = length m"
    "\<forall>i. \<not> blank (m ! i) \<longrightarrow> m1 ! i = m ! i"
    using trim_stage_ok [of 0 z m q] by auto
  have "m1 ! z = NUL" "\<not> blank (m1 ! q)"
    using st(3) assms by simp_all
  with assms st(2) obtain m' cs' where "trim_loop m1 new = Inr (m', cs')" "length cs' = length new"
    using trim_loop_ok [of new q z m1] by auto
  with st(1) show ?thesis
    by simp
qed

text \<open>
  C3, amended. For every line without NUL whose text before the first \<open>|\<close> holds a
  character other than space and newline, and with at most 16 non-empty segments
  between its \<open>|\<close> characters, \<^verbatim>\<open>lush_split_pipes\<close> returns as many stages as the line has
  non-empty segments: \<^verbatim>\<open>strtok\<close> drops the empty ones. The number is \<open>k + 1\<close> for a line with
  \<open>k\<close> characters \<open>|\<close> when no segment is empty, that is, when no \<open>|\<close> is first, last or next to
  another. It is also the status of \<^verbatim>\<open>lush_split_args\<close> whenever that is not \<open>-1\<close>. Quotes and
  backslashes play no part: the line is split before quotes are looked at.
\<close>

theorem split_pipes_stage_count:
  assumes "NUL \<notin> set s"
    and "\<exists>x \<in> set (hd (pipe_segments s)). \<not> blank x"
    and "length (filter (\<lambda>seg. seg \<noteq> []) (pipe_segments s)) \<le> 16"
  shows "\<exists>m' commands. lush_split_pipes (s @ NUL # rest) = Inr (m', commands)
      \<and> length commands = length (filter (\<lambda>seg. seg \<noteq> []) (pipe_segments s))
      \<and> ((\<forall>seg \<in> set (pipe_segments s). seg \<noteq> []) \<longrightarrow> length commands = count_list s (CHR ''|'') + 1)
      \<and> (\<forall>ge m'' args status. lush_split_args ge m' commands = Inr (m'', args, status) \<and> status \<noteq> - 1 \<longrightarrow>
            status = int (length commands) \<and> length args = length commands)"
proof -
  define seg0 where "seg0 = takeWhile (\<lambda>x. x \<noteq> CHR ''|'') s"
  define t2 where "t2 = dropWhile (\<lambda>x. x \<noteq> CHR ''|'') s"
  have s: "s = seg0 @ t2"
    by (simp add: seg0_def t2_def)
  have free: "CHR ''|'' \<notin> set seg0"
    by (auto simp: seg0_def dest: set_takeWhileD)
  have nul0: "NUL \<notin> set seg0"
    using assms(1) s by auto
  from assms(2) obtain q where q: "q < length seg0" "\<not> blank (seg0 ! q)"
    by (auto simp: hd_pipe_segments seg0_def [symmetric] in_set_conv_nth)
  then have ne: "seg0 \<noteq> []"
    by auto
  let ?m = "s @ NUL # rest"
  let ?n = "length (filter (\<lambda>seg. seg \<noteq> []) (pipe_segments s))"
  have "\<exists>m' commands. lush_split_pipes ?m = Inr (m', commands) \<and> length commands = ?n"
  proof (cases t2)
    case Nil
    then have m: "?m = [] @ [] @ seg0 @ NUL # rest"
      using s by simp
    have "strtok_pipe ?m 0 = Inr (Some (?m, 0, length seg0))"
      unfolding m using strtok_pipe_token [of "[]" seg0 NUL "[]" rest] ne free nul0 by simp
    then have "strtok_loop ?m 0 [] = strtok_loop ?m (length seg0) [0]"
      by (subst strtok_loop.simps) simp
    moreover have "strtok_pipe (seg0 @ [] @ NUL # rest) (length seg0) = Inr None"
      by (rule strtok_pipe_none) simp
    then have "strtok_loop ?m (length seg0) [0] = Inr (?m, [0])"
      using m by (subst strtok_loop.simps) simp
    ultimately have loop: "strtok_loop ?m 0 [] = Inr (?m, [0])"
      by simp
    have "\<exists>m' cs'. trim_loop ?m (0 # []) = Inr (m', cs') \<and> length cs' = Suc (length ([] :: nat list))"
    proof (rule trim_loop_first_ok [of "length s" _ q])
      show "\<forall>i\<le>q. ?m ! i \<noteq> NUL"
      proof (intro allI impI)
        fix i assume "i \<le> q"
        with q(1) have "i < length seg0" by simp
        then have "?m ! i = seg0 ! i" "seg0 ! i \<in> set seg0"
          using s Nil by (simp_all add: nth_append)
        with nul0 show "?m ! i \<noteq> NUL" by auto
      qed
      show "\<not> blank (?m ! q)"
        using q s Nil by (simp add: nth_append)
    qed (use q s Nil in simp_all)
    moreover have "?n = 1"
      using s Nil ne pipe_segments_single [OF free] by simp
    ultimately show ?thesis
      using loop by (auto simp: lush_split_pipes_def)
  next
    case (Cons y t3)
    then have y: "y = CHR ''|''"
      using hd_dropWhile [of "\<lambda>x. x \<noteq> CHR ''|''" s] by (simp add: t2_def)
    have m: "?m = [] @ [] @ seg0 @ CHR ''|'' # t3 @ NUL # rest"
      using s Cons y by simp
    let ?m1 = "seg0 @ NUL # t3 @ NUL # rest"
    have "strtok_pipe ?m 0 = Inr (Some (?m1, 0, length seg0 + 1))"
      unfolding m
      using strtok_pipe_token [of "[]" seg0 "CHR ''|''" "[]" "t3 @ NUL # rest"] ne free nul0
      by (simp add: NUL_def)
    then have step: "strtok_loop ?m 0 [] = strtok_loop ?m1 (length seg0 + 1) [0]"
      by (subst strtok_loop.simps) simp
    have n: "?n = Suc (length (filter (\<lambda>seg. seg \<noteq> []) (pipe_segments t3)))"
      using s Cons y ne pipe_segments_bar_free [OF free, of t3] by simp
    have "NUL \<notin> set t3"
      using assms(1) s Cons by simp
    moreover have "length [0::nat] + length (filter (\<lambda>seg. seg \<noteq> []) (pipe_segments t3)) \<le> 16"
      using assms(3) n by simp
    ultimately obtain m2 new where
      loop: "strtok_loop ((seg0 @ [NUL]) @ t3 @ NUL # rest) (length (seg0 @ [NUL])) [0] = Inr (m2, [0] @ new)"
      and cnt: "length new = length (filter (\<lambda>seg. seg \<noteq> []) (pipe_segments t3))"
      and bnd: "\<forall>c \<in> set new. length (seg0 @ [NUL]) \<le> c \<and> c \<le> length (seg0 @ [NUL]) + length t3"
      and len: "length m2 = length ((seg0 @ [NUL]) @ t3 @ NUL # rest)"
      and same: "\<forall>i. ((seg0 @ [NUL]) @ t3 @ NUL # rest) ! i \<noteq> CHR ''|'' \<longrightarrow>
                  m2 ! i = ((seg0 @ [NUL]) @ t3 @ NUL # rest) ! i"
      using strtok_loop_count [of t3 "[0]" "seg0 @ [NUL]" rest] by blast
    have m1: "(seg0 @ [NUL]) @ t3 @ NUL # rest = ?m1"
      by simp
    have res: "strtok_loop ?m 0 [] = Inr (m2, 0 # new)"
      using step loop unfolding m1 by simp
    have ls: "length s = length seg0 + 1 + length t3"
      using s Cons by simp
    have low: "m2 ! i = seg0 ! i" if "i < length seg0" for i
    proof -
      have "?m1 ! i = seg0 ! i"
        using that by (simp add: nth_append)
      moreover have "seg0 ! i \<noteq> CHR ''|''"
        using that free by (metis nth_mem)
      ultimately show ?thesis
        using same unfolding m1 by simp
    qed
    have "?m1 ! length s = NUL"
      unfolding ls by (simp add: nth_append)
    then have at_z: "m2 ! length s = NUL"
      using same unfolding m1 by (simp add: NUL_def)
    have "\<exists>m' cs'. trim_loop m2 (0 # new) = Inr (m', cs') \<and> length cs' = Suc (length new)"
    proof (rule trim_loop_first_ok [of "length s" _ q])
      show "length s < length m2"
        using len ls by simp
      show "m2 ! length s = NUL"
        by (rule at_z)
      show "q < length s"
        using q(1) ls by simp
      show "\<not> blank (m2 ! q)"
        using q low by simp
      show "\<forall>i\<le>q. m2 ! i \<noteq> NUL"
        using q(1) low nul0 by (metis le_less_trans nth_mem)
      show "\<forall>c\<in>set new. q < c \<and> c \<le> length s"
        using bnd q(1) ls by auto
    qed
    then show ?thesis
      using res cnt n by (auto simp: lush_split_pipes_def)
  qed
  then obtain m' commands where split: "lush_split_pipes ?m = Inr (m', commands)"
    and count: "length commands = ?n"
    by blast
  have all: "length commands = count_list s (CHR ''|'') + 1"
    if "\<forall>seg \<in> set (pipe_segments s). seg \<noteq> []"
  proof -
    from that have "filter (\<lambda>seg. seg \<noteq> []) (pipe_segments s) = pipe_segments s"
      by simp
    then show ?thesis
      using count by (simp add: length_pipe_segments)
  qed
  have status: "status = int (length commands) \<and> length args = length commands"
    if "lush_split_args ge m' commands = Inr (m'', args, status) \<and> status \<noteq> - 1"
    for ge m'' args status
    using split_args_loop_status [of ge m' commands "[]" m'' args status] that
    by (simp add: lush_split_args_def)
  show ?thesis
  proof (intro exI conjI)
    show "lush_split_pipes ?m = Inr (m', commands)" by (rule split)
    show "length commands = ?n" by (rule count)
    show "(\<forall>seg \<in> set (pipe_segments s). seg \<noteq> []) \<longrightarrow> length commands = count_list s (CHR ''|'') + 1"
      using all by blast
    show "\<forall>ge m'' args status. lush_split_args ge m' commands = Inr (m'', args, status) \<and> status \<noteq> - 1 \<longrightarrow>
            status = int (length commands) \<and> length args = length commands"
      using status by blast
  qed
qed

theorem split_pipes_stage_count_witness:
  "\<exists>m' commands. lush_split_pipes (line_buffer ''echo hello | tr a-z A-Z'') = Inr (m', commands)
     \<and> length commands = 2"
proof -
  let ?s = "''echo hello | tr a-z A-Z''"
  have h: "NUL \<notin> set ?s" "\<exists>x \<in> set (hd (pipe_segments ?s)). \<not> blank x"
    "length (filter (\<lambda>seg. seg \<noteq> []) (pipe_segments ?s)) \<le> 16"
    "\<forall>seg \<in> set (pipe_segments ?s). seg \<noteq> []" "count_list ?s (CHR ''|'') + 1 = 2"
    by code_simp+
  have buf: "line_buffer ?s = ?s @ NUL # replicate 1000 NUL"
    using line_buffer_decomp [of ?s] by (simp add: BUFFER_SIZE_def)
  from split_pipes_stage_count [OF h(1,2,3), of "replicate 1000 NUL"]
  obtain m' commands where "lush_split_pipes (?s @ NUL # replicate 1000 NUL) = Inr (m', commands)"
    and "(\<forall>seg \<in> set (pipe_segments ?s). seg \<noteq> []) \<longrightarrow> length commands = count_list ?s (CHR ''|'') + 1"
    by (elim exE conjE)
  with h(4,5) buf show ?thesis
    by (intro exI [of _ m'] exI [of _ commands]) (simp only: simp_thms)
qed

text \<open>
  C3 as the specification states it fails: the line \<open>a||b\<close> has two characters \<open>|\<close>, neither
  of them escaped or quoted, and two stages.
\<close>

theorem adjacent_pipes_counterexample:
  "count_list ''a||b'' (CHR ''|'') = 2
   \<and> tokenize (\<lambda>n. None) (line_buffer ''a||b'') = Inr ([[Some ''a''], [Some ''b'']], [[Line 0], [Line 3]], 2)"
  by code_simp

subsection \<open>Unterminated quotes\<close>

lemma split_args_loop_append:
  assumes "split_args_loop ge m pre acc = Inr (m1, acc1, n)" and "n \<noteq> - 1"
  shows "split_args_loop ge m (pre @ cs) acc = split_args_loop ge m1 cs acc1"
  using assms
proof (induction pre arbitrary: m acc)
  case Nil
  then show ?case by (auto split: if_splits)
next
  case (Cons c pre)
  then show ?case
    by (auto split: sum.splits prod.splits if_splits)
qed

text \<open>
  What holds of unterminated strings: when the stages before stage \<open>c\<close> end outside a
  string and the scan of stage \<open>c\<close> ends with \<open>inside_string\<close> set, \<^verbatim>\<open>lush_split_args\<close> returns
  the status \<open>-1\<close> and only the stages before \<open>c\<close>; \<^verbatim>\<open>main\<close> and \<^verbatim>\<open>execute_command\<close> then
  report the error and do not call \<^verbatim>\<open>lush_run\<close>: the world is unchanged but for the message
  (and the history entry of the bridge). Every other status of \<^verbatim>\<open>lush_split_args\<close> is the
  number of stages, which is not negative.
\<close>

theorem unterminated_quote_is_reported:
  assumes "lush_split_pipes line = Inr (m, pre @ c # post)"
    and "split_args_loop (env w) m pre [] = Inr (m1, stages, n)" and "n \<noteq> - 1"
    and "scan_args (env w) m1 c 0 False (Some c) [] = Inr (m2, True, current_token, args)"
    and "terminated line 0" and "strlen line 0 \<noteq> 0"
  shows "lush_split_args (env w) m (pre @ c # post) = Inr (m2, stages, - 1)
       \<and> main_iteration w line = Return () (emit (Stderr ''lush: Expected end of quoted string'') w)
       \<and> execute_command w line =
           Return (- 1, m2) (emit (Push_History (cstring m2 0)) (emit (Stderr ''lush: Expected end of quoted string'') w))
       \<and> (\<forall>ge' m' cs m'' args' st. lush_split_args ge' m' cs = Inr (m'', args', st) \<longrightarrow>
             st = - 1 \<or> (st = int (length args') \<and> length args' = length cs))"
proof -
  have "split_args_loop (env w) m (pre @ c # post) [] = split_args_loop (env w) m1 (c # post) stages"
    using assms(2,3) by (rule split_args_loop_append)
  also have "\<dots> = Inr (m2, stages, - 1)"
    using assms(4) by simp
  finally have tok: "lush_split_args (env w) m (pre @ c # post) = Inr (m2, stages, - 1)"
    by (simp add: lush_split_args_def)
  moreover have "main_iteration w line = Return () (emit (Stderr ''lush: Expected end of quoted string'') w)"
    using assms(1,5,6) tok by (simp add: main_iteration_def)
  moreover have "execute_command w line =
      Return (- 1, m2) (emit (Push_History (cstring m2 0)) (emit (Stderr ''lush: Expected end of quoted string'') w))"
    using assms(1) tok by (simp add: execute_command_def)
  moreover have "st = - 1 \<or> (st = int (length args') \<and> length args' = length cs)"
    if "lush_split_args ge' m' cs = Inr (m'', args', st)" for ge' m' cs m'' args' st
    using split_args_loop_status [of ge' m' cs "[]" m'' args' st] that
    by (simp add: lush_split_args_def)
  ultimately show ?thesis
    by blast
qed

theorem unterminated_quote_is_reported_witness:
  "lush_split_args (env demo_world) (line_buffer (''echo '' @ DQUOTE # ''hi'')) [0] =
     Inr ((line_buffer (''echo '' @ DQUOTE # ''hi''))[4 := NUL, 5 := NUL], [], - 1)
   \<and> main_iteration demo_world (line_buffer (''echo '' @ DQUOTE # ''hi'')) =
       Return () (emit (Stderr ''lush: Expected end of quoted string'') demo_world)"
proof -
  let ?line = "line_buffer (''echo '' @ DQUOTE # ''hi'')"
  have "lush_split_pipes ?line = Inr (?line, [] @ 0 # [])
      \<and> scan_args (env demo_world) ?line 0 0 False (Some 0) [] = Inr (?line[4 := NUL, 5 := NUL], True, Some 6, [Line 0])
      \<and> terminated ?line 0 \<and> strlen ?line 0 \<noteq> 0"
    by code_simp
  moreover have "split_args_loop (env demo_world) ?line [] [] = Inr (?line, [], 0)"
    by simp
  ultimately show ?thesis
    using unterminated_quote_is_reported [of ?line ?line "[]" 0 "[]" demo_world ?line "[]" 0
        "?line[4 := NUL, 5 := NUL]" "Some 6" "[Line 0]"]
    by simp
qed

text \<open>
  C4. The scan does not notice every string that is left open. After the empty pair in
  \<open>echo """\<close> the code sets \<^verbatim>\<open>current_token = &commands[i][++j]\<close> and the loop increments \<open>j\<close>
  once more, so the third quote is never examined: the stage ends with \<open>inside_string\<close>
  unset, the status is 1 and \<^verbatim>\<open>main\<close> runs \<open>echo\<close> with the argument \<open>"\<close>. In the same way the
  character after an opening quote is stepped over: in \<open>echo "|x"\<close> the first stage ends
  with the quote, the scan runs on behind the stage's terminator into the next stage
  and closes the string there, and both stages are executed.
\<close>

theorem open_quote_is_executed:
  "tokenize (\<lambda>n. None) (line_buffer (''echo '' @ [DQUOTE, DQUOTE, DQUOTE]))
     = Inr ([[Some ''echo'', Some [DQUOTE]]], [[Line 0, Line 7]], 1)
   \<and> (case main_iteration demo_world (line_buffer (''echo '' @ [DQUOTE, DQUOTE, DQUOTE])) of
        Return u w \<Rightarrow> trace w | Exit c w \<Rightarrow> [] | Fault f \<Rightarrow> [])
     = [Spawn (Some [Some ''echo'', Some [DQUOTE]]) 0 1]
   \<and> tokenize (\<lambda>n. None) (line_buffer (''echo '' @ [DQUOTE] @ ''|x'' @ [DQUOTE]))
     = Inr ([[Some ''echo'', Some []], [Some ''x'']], [[Line 0, Line 6], [Line 7]], 2)"
  by code_simp

end
